theory Spec2Isabelle
  imports Main
begin

section \<open>JavaScript values used by the linter\<close>

text \<open>
  A document text is a JavaScript string; it is modelled as a \<open>string\<close>, a list of
  8-bit characters (the code units below 256). Reading a string or an array outside its
  bounds gives \<open>undefined\<close> in JavaScript, which is \<open>None\<close> here. \<open>CHR 0x0A\<close> is the
  newline, \<open>CHR 0x09\<close> the tab, \<open>CHR 0x22\<close> the double quote, \<open>CHR 0x27\<close> the single
  quote and \<open>CHR 0x5C\<close> the backslash.
\<close>

definition at_index :: "'a list \<Rightarrow> nat \<Rightarrow> 'a option" where
  "at_index xs i = (if i < length xs then Some (xs ! i) else None)"

text \<open>\<open>xs[i - 1]\<close>: \<open>undefined\<close> at \<open>i = 0\<close>, where the index is \<open>-1\<close>.\<close>

definition before_index :: "'a list \<Rightarrow> nat \<Rightarrow> 'a option" where
  "before_index xs i = (if i = 0 then None else at_index xs (i - 1))"

text \<open>
  \<^verbatim>\<open>s.slice(a, b)\<close>: a negative index counts from the end, both indices are clamped to
  the string, and the result is empty when the end is not after the start.
  \<^verbatim>\<open>s.slice(a)\<close> is \<open>js_slice_from\<close>.
\<close>

definition js_slice :: "'a list \<Rightarrow> int \<Rightarrow> int \<Rightarrow> 'a list" where
  "js_slice s a b =
     (let n = int (length s);
          from = (if a < 0 then max (n + a) 0 else min a n);
          to = (if b < 0 then max (n + b) 0 else min b n)
      in take (nat (to - from)) (drop (nat from) s))"

definition js_slice_from :: "'a list \<Rightarrow> int \<Rightarrow> 'a list" where
  "js_slice_from s a = js_slice s a (int (length s))"

text \<open>\<^verbatim>\<open>s.split(c)\<close> for a one-character separator; the result is never empty.\<close>

fun split_on :: "char \<Rightarrow> string \<Rightarrow> string list" where
  "split_on c [] = [[]]"
| "split_on c (x # xs) =
     (if x = c then [] # split_on c xs
      else (case split_on c xs of l # ls \<Rightarrow> (x # l) # ls | [] \<Rightarrow> [[x]]))"

text \<open>\<^verbatim>\<open>lines.join(sep)\<close>\<close>

fun join_with :: "string \<Rightarrow> string list \<Rightarrow> string" where
  "join_with sep [] = []"
| "join_with sep [l] = l"
| "join_with sep (l # ls) = l @ sep @ join_with sep ls"

text \<open>\<^verbatim>\<open>s.indexOf(c, from)\<close> and \<^verbatim>\<open>s.lastIndexOf(c)\<close>: \<open>-1\<close> when \<open>c\<close> does not occur.\<close>

fun index_in :: "char \<Rightarrow> string \<Rightarrow> nat \<Rightarrow> int" where
  "index_in c [] i = - 1"
| "index_in c (x # xs) i = (if x = c then int i else index_in c xs (i + 1))"

definition indexOf :: "string \<Rightarrow> char \<Rightarrow> nat \<Rightarrow> int" where
  "indexOf s c from = index_in c (drop from s) from"

fun last_index_in :: "char \<Rightarrow> string \<Rightarrow> nat \<Rightarrow> int \<Rightarrow> int" where
  "last_index_in c [] i found = found"
| "last_index_in c (x # xs) i found =
     last_index_in c xs (i + 1) (if x = c then int i else found)"

definition lastIndexOf :: "string \<Rightarrow> char \<Rightarrow> int" where
  "lastIndexOf s c = last_index_in c s 0 (- 1)"

text \<open>
  The white space of \<^verbatim>\<open>\s\<close> and of \<^verbatim>\<open>trim()\<close> among the characters below 256: tab,
  newline, vertical tab, form feed, carriage return, space and no-break space.
\<close>

definition white_space :: string where
  "white_space = [CHR 0x09, CHR 0x0A, CHR 0x0B, CHR 0x0C, CHR 0x0D, CHR 0x20, CHR 0xA0]"

definition is_space :: "char \<Rightarrow> bool" where
  "is_space c = (c \<in> set white_space)"

definition trim :: "string \<Rightarrow> string" where
  "trim s = rev (dropWhile is_space (rev (dropWhile is_space s)))"

text \<open>
  \<^verbatim>\<open>s.split(/\s+/)\<close>: the pieces between the maximal runs of white space; a run at the
  start or the end of \<open>s\<close> gives an empty first or last piece.
\<close>

function split_space :: "string \<Rightarrow> string list" where
  "split_space [] = [[]]"
| "split_space (c # cs) =
     (if is_space c then [] # split_space (dropWhile is_space cs)
      else (case split_space cs of l # ls \<Rightarrow> (c # l) # ls | [] \<Rightarrow> [[c]]))"
  by pat_completeness auto
termination
  by (relation "measure length") (auto simp: length_dropWhile_le less_Suc_eq_le)

section \<open>Regular expressions\<close>

text \<open>
  The regular expressions of the parser are sequences of the following items: the
  assertions \<^verbatim>\<open>^\<close> and \<^verbatim>\<open>$\<close> under the \<open>m\<close> flag, literal text, a character class
  (\<open>OneOf\<close> the listed characters, or \<open>NoneOf\<close> them for \<^verbatim>\<open>[^...]\<close>), once, under \<^verbatim>\<open>*\<close> or
  under \<^verbatim>\<open>+\<close>, an alternation of literal words, and the parentheses of a capture group.
\<close>

datatype cls = OneOf string | NoneOf string

fun in_cls :: "cls \<Rightarrow> char \<Rightarrow> bool" where
  "in_cls (OneOf s) x = (x \<in> set s)"
| "in_cls (NoneOf s) x = (x \<notin> set s)"

datatype item =
    LineStart | LineEnd
  | Lit string
  | One cls | Star cls | Plus cls
  | AltLit "string list"
  | GroupOpen nat | GroupClose nat

text \<open>The line terminators among the characters below 256: newline and carriage return.\<close>

definition lineTerminator :: "char \<Rightarrow> bool" where
  "lineTerminator c = (c = CHR 0x0A \<or> c = CHR 0x0D)"

definition at_line_start :: "string \<Rightarrow> nat \<Rightarrow> bool" where
  "at_line_start text i =
     (case before_index text i of None \<Rightarrow> True | Some c \<Rightarrow> lineTerminator c)"

definition at_line_end :: "string \<Rightarrow> nat \<Rightarrow> bool" where
  "at_line_end text i =
     (case at_index text i of None \<Rightarrow> True | Some c \<Rightarrow> lineTerminator c)"

fun item_weight :: "item \<Rightarrow> nat" where
  "item_weight (Lit s) = Suc (length s)"
| "item_weight (Plus c) = 3"
| "item_weight (AltLit as) = Suc (sum_list (map (\<lambda>a. Suc (Suc (length a))) as))"
| "item_weight _ = 1"

type_synonym captures = "(nat \<times> string) list"

text \<open>
  The backtracking matcher: \<open>rx t re i os cs\<close> matches the items \<open>re\<close> against \<open>t\<close> from
  index \<open>i\<close> on and gives the end index and the captures. \<^verbatim>\<open>*\<close> and \<^verbatim>\<open>+\<close> are greedy:
  they take a character first and give it back when the rest fails. An alternation tries
  its words from left to right. \<open>os\<close> holds the start index of each open group.
\<close>

function (sequential) rx ::
  "string \<Rightarrow> item list \<Rightarrow> nat \<Rightarrow> (nat \<times> nat) list \<Rightarrow> captures \<Rightarrow> (nat \<times> captures) option"
where
  "rx t [] i os cs = Some (i, cs)"
| "rx t (LineStart # r) i os cs = (if at_line_start t i then rx t r i os cs else None)"
| "rx t (LineEnd # r) i os cs = (if at_line_end t i then rx t r i os cs else None)"
| "rx t (Lit [] # r) i os cs = rx t r i os cs"
| "rx t (Lit (c # s) # r) i os cs =
     (if at_index t i = Some c then rx t (Lit s # r) (i + 1) os cs else None)"
| "rx t (One c # r) i os cs =
     (case at_index t i of
        None \<Rightarrow> None
      | Some x \<Rightarrow> if in_cls c x then rx t r (i + 1) os cs else None)"
| "rx t (Star c # r) i os cs =
     (case at_index t i of
        None \<Rightarrow> rx t r i os cs
      | Some x \<Rightarrow>
          if in_cls c x then
            (case rx t (Star c # r) (i + 1) os cs of
               Some res \<Rightarrow> Some res
             | None \<Rightarrow> rx t r i os cs)
          else rx t r i os cs)"
| "rx t (Plus c # r) i os cs = rx t (One c # Star c # r) i os cs"
| "rx t (AltLit [] # r) i os cs = None"
| "rx t (AltLit (a # as) # r) i os cs =
     (case rx t (Lit a # r) i os cs of
        Some res \<Rightarrow> Some res
      | None \<Rightarrow> rx t (AltLit as # r) i os cs)"
| "rx t (GroupOpen k # r) i os cs = rx t r i ((k, i) # os) cs"
| "rx t (GroupClose k # r) i os cs =
     (case map_of os k of
        None \<Rightarrow> None
      | Some s \<Rightarrow> rx t r i os ((k, take (i - s) (drop s t)) # cs))"
  by pat_completeness auto
termination
  by (relation "measures [\<lambda>(t, its, i, os, cs). sum_list (map item_weight its),
                          \<lambda>(t, its, i, os, cs). length t - i]")
     (auto simp: at_index_def split: if_splits)

text \<open>
  A match: \<open>m.index\<close>, the index after the match (\<open>m.index + m[0].length\<close>, the
  \<open>lastIndex\<close> a global expression is left with) and the captures \<open>m[1]\<close>, \<open>m[2]\<close>.
\<close>

record rmatch =
  m_index :: nat
  m_end :: nat
  m_groups :: captures

text \<open>
  \<^verbatim>\<open>RE.exec(text)\<close> with \<open>lastIndex = i\<close>: the match at the first index from \<open>i\<close> on,
  up to and including \<open>text.length\<close>, at which the expression matches.
\<close>

function search :: "item list \<Rightarrow> string \<Rightarrow> nat \<Rightarrow> rmatch option" where
  "search re text i =
     (if length text < i then None
      else (case rx text re i [] [] of
              Some (e, cs) \<Rightarrow> Some \<lparr>m_index = i, m_end = e, m_groups = cs\<rparr>
            | None \<Rightarrow> search re text (i + 1)))"
  by pat_completeness auto
termination
  by (relation "measure (\<lambda>(re, text, i). Suc (length text) - i)") auto

declare search.simps [simp del]

text \<open>\<open>m[0]\<close> and \<open>m[k]\<close>; a group that took no part in the match is \<open>undefined\<close>.\<close>

definition m0 :: "string \<Rightarrow> rmatch \<Rightarrow> string" where
  "m0 text m = take (m_end m - m_index m) (drop (m_index m) text)"

definition group :: "rmatch \<Rightarrow> nat \<Rightarrow> string option" where
  "group m k = map_of (m_groups m) k"

text \<open>
  Where the source reads \<open>m[k]\<close> as a string: every group of the expressions below takes
  part in every match.
\<close>

definition group_str :: "rmatch \<Rightarrow> nat \<Rightarrow> string" where
  "group_str m k = (case group m k of Some s \<Rightarrow> s | None \<Rightarrow> [])"

text \<open>The least number of characters a match of the items takes.\<close>

fun min_len :: "item \<Rightarrow> nat" where
  "min_len (Lit s) = length s"
| "min_len (One c) = 1"
| "min_len (Plus c) = 1"
| "min_len _ = 0"

definition re_min_len :: "item list \<Rightarrow> nat" where
  "re_min_len re = sum_list (map min_len re)"

lemma rx_bounds:
  "rx t re i os cs = Some (e, cs') \<Longrightarrow>
   i + re_min_len re \<le> e \<and> (i \<le> length t \<longrightarrow> e \<le> length t)"
  unfolding re_min_len_def
proof (induction t re i os cs arbitrary: e cs' rule: rx.induct)
  case (7 t c r i os cs)
  show ?case
  proof (cases "at_index t i")
    case None
    with 7 show ?thesis by simp
  next
    case (Some x)
    note x = Some
    then have lt: "i < length t" by (simp add: at_index_def split: if_splits)
    show ?thesis
    proof (cases "in_cls c x")
      case False
      with 7 x show ?thesis by simp
    next
      case True
      show ?thesis
      proof (cases "rx t (Star c # r) (i + 1) os cs")
        case None
        with 7 x True show ?thesis by simp
      next
        case (Some res)
        with "7.prems" x True have "rx t (Star c # r) (i + 1) os cs = Some (e, cs')" by simp
        from "7.IH"(2) [OF x True this] lt show ?thesis by simp
      qed
    qed
  qed
next
  case (10 t a as r i os cs)
  show ?case
  proof (cases "rx t (Lit a # r) i os cs")
    case None
    with "10.prems" have "rx t (AltLit as # r) i os cs = Some (e, cs')" by simp
    from "10.IH"(2) [OF None this] show ?thesis by simp
  next
    case (Some res)
    with "10.prems" have "rx t (Lit a # r) i os cs = Some (e, cs')" by simp
    from "10.IH"(1) [OF this] show ?thesis by simp
  qed
qed (simp_all add: at_index_def split: if_splits option.splits)

lemma search_bounds:
  "search re tx i = Some m \<Longrightarrow>
   i \<le> m_index m \<and> m_index m + re_min_len re \<le> m_end m \<and> m_end m \<le> length tx"
proof (induction re tx i rule: search.induct)
  case (1 re tx i)
  show ?case
  proof (cases "rx tx re i [] []")
    case None
    with "1.prems" have le: "\<not> length tx < i" and s: "search re tx (i + 1) = Some m"
      by (auto simp: search.simps [of re tx i] split: if_splits)
    from "1.IH" [OF le None s] show ?thesis by simp
  next
    case (Some r)
    obtain e cs where r: "r = (e, cs)" by (cases r)
    with Some "1.prems" have le: "\<not> length tx < i"
      and m: "m = \<lparr>m_index = i, m_end = e, m_groups = cs\<rparr>"
      by (auto simp: search.simps [of re tx i] split: if_splits)
    from rx_bounds [of tx re i "[]" "[]" e cs] Some r le m show ?thesis by simp
  qed
qed

text \<open>
  The matches of a global expression in turn, as \<^verbatim>\<open>while ((m = RE.exec(text)))\<close> and
  \<^verbatim>\<open>text.matchAll(RE)\<close> visit them: each search starts where the match before ended, the
  first at 0 (a loop that ran to its end has reset \<open>lastIndex\<close> to 0). Every expression
  of the parser takes at least one character; for an expression that matches the empty
  string the two loops differ and neither is modelled.
\<close>

function exec_all :: "item list \<Rightarrow> string \<Rightarrow> nat \<Rightarrow> rmatch list" where
  "exec_all re text lastIndex =
     (if re_min_len re = 0 then []
      else (case search re text lastIndex of
              None \<Rightarrow> []
            | Some m \<Rightarrow> m # exec_all re text (m_end m)))"
  by pat_completeness auto
termination
proof (relation "measure (\<lambda>(re, text, lastIndex). Suc (length text) - lastIndex)")
  show "wf (measure (\<lambda>(re, text, lastIndex). Suc (length text) - lastIndex))" by simp
next
  fix re :: "item list" and tx :: string and lastIndex :: nat and m :: rmatch
  assume "re_min_len re \<noteq> 0" "search re tx lastIndex = Some m"
  with search_bounds [of re tx lastIndex m]
  have "lastIndex < m_end m" "m_end m \<le> length tx" by linarith+
  then show "((re, tx, m_end m), (re, tx, lastIndex))
          \<in> measure (\<lambda>(re, text, lastIndex). Suc (length text) - lastIndex)"
    by simp
qed

declare exec_all.simps [simp del]

section \<open>The brace matcher (yangParser.ts)\<close>

text \<open>\<^verbatim>\<open>enum S { CODE, LINE_COMMENT, BLOCK_COMMENT, DQ_STRING, SQ_STRING }\<close>\<close>

datatype S = CODE | LINE_COMMENT | BLOCK_COMMENT | DQ_STRING | SQ_STRING

text \<open>
  The loop of \<open>findMatchingBrace\<close>,
  \<^verbatim>\<open>for (let i = openIdx + 1; i < text.length; i++) { const ch = text[i], nxt = text[i + 1]; switch (state) ... }\<close>,
  as a recursive function of the loop variables \<open>state\<close>, \<open>depth\<close> and \<open>i\<close>. A branch
  that does \<open>i++\<close> in the body continues at \<open>i + 2\<close>. \<open>CHR 0x22\<close> is the double quote,
  \<open>CHR 0x27\<close> the single quote, \<open>CHR 0x5C\<close> the backslash and \<open>CHR 0x0A\<close> the newline.
  Leaving the loop returns \<open>text.length - 1\<close>, which is \<open>-1\<close> for the empty text.
\<close>

function fmb_loop :: "string \<Rightarrow> S \<Rightarrow> int \<Rightarrow> nat \<Rightarrow> int" where
  "fmb_loop text state depth i =
     (if i < length text then
        (let ch = text ! i; nxt = at_index text (i + 1) in
         case state of
           CODE \<Rightarrow>
             if ch = CHR ''{'' then fmb_loop text CODE (depth + 1) (i + 1)
             else if ch = CHR ''}'' then
               (if depth - 1 = 0 then int i else fmb_loop text CODE (depth - 1) (i + 1))
             else if ch = CHR ''/'' \<and> nxt = Some (CHR ''/'') then
               fmb_loop text LINE_COMMENT depth (i + 2)
             else if ch = CHR ''/'' \<and> nxt = Some (CHR ''*'') then
               fmb_loop text BLOCK_COMMENT depth (i + 2)
             else if ch = CHR 0x22 then fmb_loop text DQ_STRING depth (i + 1)
             else if ch = CHR 0x27 then fmb_loop text SQ_STRING depth (i + 1)
             else fmb_loop text CODE depth (i + 1)
         | LINE_COMMENT \<Rightarrow>
             if ch = CHR 0x0A then fmb_loop text CODE depth (i + 1)
             else fmb_loop text LINE_COMMENT depth (i + 1)
         | BLOCK_COMMENT \<Rightarrow>
             if ch = CHR ''*'' \<and> nxt = Some (CHR ''/'') then fmb_loop text CODE depth (i + 2)
             else fmb_loop text BLOCK_COMMENT depth (i + 1)
         | DQ_STRING \<Rightarrow>
             if ch = CHR 0x22 \<and> before_index text i \<noteq> Some (CHR 0x5C) then
               fmb_loop text CODE depth (i + 1)
             else fmb_loop text DQ_STRING depth (i + 1)
         | SQ_STRING \<Rightarrow>
             if ch = CHR 0x27 \<and> before_index text i \<noteq> Some (CHR 0x5C) then
               fmb_loop text CODE depth (i + 1)
             else fmb_loop text SQ_STRING depth (i + 1))
      else int (length text) - 1)"
  by pat_completeness auto
termination
  by (relation "measure (\<lambda>(text, state, depth, i). length text - i)") auto

declare fmb_loop.simps [simp del]

text \<open>
  \<^verbatim>\<open>let state = S.CODE, depth = 1; for (let i = openIdx + 1; ...)\<close>. \<open>openIdx\<close> is
  \<open>-1\<close> when the caller's \<open>indexOf\<close> found no brace. Below index 0 the loop reads
  \<open>undefined\<close> for \<open>ch\<close>, which changes neither the state nor the depth, so a loop
  that starts below 0 continues from 0 as it started.
\<close>

definition findMatchingBrace :: "string \<Rightarrow> int \<Rightarrow> int" where
  "findMatchingBrace text openIdx = fmb_loop text CODE 1 (nat (openIdx + 1))"

section \<open>The structural extractor (yangParser.ts)\<close>

subsection \<open>Positions and node types\<close>

text \<open>
  \<open>Range\<close> of the language-server protocol, \<^verbatim>\<open>{ start: Position, end: Position }\<close> with
  \<^verbatim>\<open>Position = { line, character }\<close>, and the node types of the parser. The fields
  carry a prefix per node type; \<open>undefined\<close> of an optional field is \<open>None\<close>.
\<close>

record Position =
  line :: nat
  character :: nat

record Range =
  range_start :: Position
  range_end :: Position

record ModuleHeader =
  mh_moduleName :: "string option"
  mh_namespace :: "string option"
  mh_range :: Range
  mh_rawLine :: string

record ImportNode =
  imp_name :: string
  imp_range :: Range
  imp_rawLine :: string

record TypedefNode =
  td_name :: string
  td_range :: Range
  td_rawLine :: string
  td_afterLines :: string

record StatusNode =
  st_value :: string
  st_range :: Range
  st_rawLine :: string
  st_afterLines :: string

record ListNode =
  ls_line :: nat
  ls_range :: Range
  ls_key :: "string list"
  ls_children :: "string list"
  ls_afterLines :: string

record BlockNode =
  bl_keyword :: string
  bl_name :: string
  bl_range :: Range
  bl_rawLine :: string
  bl_afterLines :: string

record DeviationNode =
  dev_target :: string
  dev_range :: Range
  dev_duplicate :: bool

record ConstraintNode =
  cn_keyword :: string
  cn_name :: string
  cn_range :: Range
  cn_hasMust :: bool
  cn_hasWhen :: bool
  cn_hasDesc :: bool

record Ast =
  ast_moduleHeader :: "ModuleHeader option"
  ast_imports :: "ImportNode list option"
  ast_typedefs :: "TypedefNode list option"
  ast_statuses :: "StatusNode list option"
  ast_lists :: "ListNode list option"
  ast_blocks :: "BlockNode list option"
  ast_deviations :: "DeviationNode list option"
  ast_constraintNodes :: "ConstraintNode list option"

text \<open>
  \<^verbatim>\<open>const lines = text.slice(0, idx).split('\n');
  return { line: lines.length - 1, character: lines.at(-1)!.length };\<close>
\<close>

definition idxToPos :: "string \<Rightarrow> int \<Rightarrow> Position" where
  "idxToPos text idx =
     (let lines = split_on (CHR 0x0A) (js_slice text 0 idx)
      in \<lparr>line = length lines - 1, character = length (last lines)\<rparr>)"

subsection \<open>The regular expressions\<close>

definition upper :: string where "upper = ''ABCDEFGHIJKLMNOPQRSTUVWXYZ''"
definition lower :: string where "lower = ''abcdefghijklmnopqrstuvwxyz''"
definition digits :: string where "digits = ''0123456789''"

text \<open>\<^verbatim>\<open>[ \t]\<close>, \<^verbatim>\<open>[A-Za-z0-9._-]\<close>, \<^verbatim>\<open>\w\<close>, \<^verbatim>\<open>[^\n]\<close> and \<^verbatim>\<open>\s\<close>.\<close>

definition blank :: cls where "blank = OneOf [CHR '' '', CHR 0x09]"
definition name_char :: cls where "name_char = OneOf (upper @ lower @ digits @ ''._-'')"
definition word_char :: cls where "word_char = OneOf (upper @ lower @ digits @ ''_'')"
definition not_newline :: cls where "not_newline = NoneOf [CHR 0x0A]"
definition space_char :: cls where "space_char = OneOf white_space"

text \<open>\<^verbatim>\<open>/^[ \t]*module[ \t]+([A-Za-z0-9._-]+)[^\n]*$/m\<close>\<close>

definition MODULE_RE :: "item list" where
  "MODULE_RE = [LineStart, Star blank, Lit ''module'', Plus blank,
     GroupOpen 1, Plus name_char, GroupClose 1, Star not_newline, LineEnd]"

text \<open>\<^verbatim>\<open>/^[ \t]*namespace[ \t]+"([^"]+)"[^\n]*$/m\<close>\<close>

definition NS_RE :: "item list" where
  "NS_RE = [LineStart, Star blank, Lit ''namespace'', Plus blank, Lit [CHR 0x22],
     GroupOpen 1, Plus (NoneOf [CHR 0x22]), GroupClose 1, Lit [CHR 0x22],
     Star not_newline, LineEnd]"

text \<open>\<^verbatim>\<open>/^[ \t]*import[ \t]+([0-9A-Za-z._-]+)[^\n]*$/gm\<close>\<close>

definition IMPORT_RE :: "item list" where
  "IMPORT_RE = [LineStart, Star blank, Lit ''import'', Plus blank,
     GroupOpen 1, Plus name_char, GroupClose 1, Star not_newline, LineEnd]"

text \<open>\<^verbatim>\<open>/^[ \t]*status[ \t]+(current|deprecated|obsolete)[^\n]*$/gm\<close>\<close>

definition STATUS_RE :: "item list" where
  "STATUS_RE = [LineStart, Star blank, Lit ''status'', Plus blank,
     GroupOpen 1, AltLit [''current'', ''deprecated'', ''obsolete''], GroupClose 1,
     Star not_newline, LineEnd]"

text \<open>\<^verbatim>\<open>/^[ \t]*typedef[ \t]+([A-Za-z0-9._-]+)[ \t]*{/gm\<close>\<close>

definition TYPEDEF_START_RE :: "item list" where
  "TYPEDEF_START_RE = [LineStart, Star blank, Lit ''typedef'', Plus blank,
     GroupOpen 1, Plus name_char, GroupClose 1, Star blank, Lit ''{'']"

text \<open>\<^verbatim>\<open>/^[ \t]*list[ \t]+(\w+)[ \t]*{/gm\<close>\<close>

definition LIST_START_RE :: "item list" where
  "LIST_START_RE = [LineStart, Star blank, Lit ''list'', Plus blank,
     GroupOpen 1, Plus word_char, GroupClose 1, Star blank, Lit ''{'']"

text \<open>\<^verbatim>\<open>/^[ \t]*deviation[ \t]+([^ \t{]+)[ \t]*{/gm\<close>\<close>

definition DEVIATION_START_RE :: "item list" where
  "DEVIATION_START_RE = [LineStart, Star blank, Lit ''deviation'', Plus blank,
     GroupOpen 1, Plus (NoneOf [CHR '' '', CHR 0x09, CHR ''{'']), GroupClose 1,
     Star blank, Lit ''{'']"

text \<open>\<^verbatim>\<open>/key[ \t]+"([^"]+)"/\<close> and \<^verbatim>\<open>/leaf[ \t]+(\w+)/g\<close>\<close>

definition KEY_RE :: "item list" where
  "KEY_RE = [Lit ''key'', Plus blank, Lit [CHR 0x22],
     GroupOpen 1, Plus (NoneOf [CHR 0x22]), GroupClose 1, Lit [CHR 0x22]]"

definition LEAF_RE :: "item list" where
  "LEAF_RE = [Lit ''leaf'', Plus blank, GroupOpen 1, Plus word_char, GroupClose 1]"

text \<open>
  \<^verbatim>\<open>/^[ \t]*(anyxml|augment|choice|container|extension|feature|notification|rpc)[ \t]+(\w+)[^\n]*{/gm\<close>
\<close>

definition DESC_BLOCK_RE :: "item list" where
  "DESC_BLOCK_RE = [LineStart, Star blank,
     GroupOpen 1,
     AltLit [''anyxml'', ''augment'', ''choice'', ''container'', ''extension'', ''feature'',
             ''notification'', ''rpc''],
     GroupClose 1, Plus blank,
     GroupOpen 2, Plus word_char, GroupClose 2, Star not_newline, Lit ''{'']"

text \<open>
  \<^verbatim>\<open>/^[ \t]*(container|list|leaf-list|leaf|choice|case|anyxml|anydata|grouping|uses|typedef|augment)[ \t]+(\w+)[^\n]*{/gm\<close>
\<close>

definition CONSTRAINT_START_RE :: "item list" where
  "CONSTRAINT_START_RE = [LineStart, Star blank,
     GroupOpen 1,
     AltLit [''container'', ''list'', ''leaf-list'', ''leaf'', ''choice'', ''case'', ''anyxml'',
             ''anydata'', ''grouping'', ''uses'', ''typedef'', ''augment''],
     GroupClose 1, Plus blank,
     GroupOpen 2, Plus word_char, GroupClose 2, Star not_newline, Lit ''{'']"

text \<open>\<^verbatim>\<open>/[\s\n]must[\s\n]/\<close>, and the same for \<open>when\<close> and \<open>description\<close>.\<close>

definition spaced_word_RE :: "string \<Rightarrow> item list" where
  "spaced_word_RE w = [One space_char, Lit w, One space_char]"

subsection \<open>parseYang\<close>

text \<open>
  \<^verbatim>\<open>range: { start: idxToPos(text, a), end: idxToPos(text, b) }\<close>
\<close>

definition range_of :: "string \<Rightarrow> int \<Rightarrow> int \<Rightarrow> Range" where
  "range_of text a b = \<lparr>range_start = idxToPos text a, range_end = idxToPos text b\<rparr>"

text \<open>\<^verbatim>\<open>body.split('\n').slice(0, 10).join('\n')\<close>\<close>

definition first_lines :: "string \<Rightarrow> string" where
  "first_lines body = join_with [CHR 0x0A] (take 10 (split_on (CHR 0x0A) body))"

text \<open>
  \<^verbatim>\<open>const mh = MODULE_RE.exec(text); const ns = NS_RE.exec(text);
  const moduleHeader = mh ? { moduleName: mh[1], namespace: ns?.[1], rawLine: mh[0],
    range: { start: idxToPos(text, mh.index), end: idxToPos(text, mh.index + mh[0].length) } } : undefined;\<close>
\<close>

definition parse_moduleHeader :: "string \<Rightarrow> ModuleHeader option" where
  "parse_moduleHeader text =
     (let mh = search MODULE_RE text 0; ns = search NS_RE text 0 in
      case mh of
        None \<Rightarrow> None
      | Some m \<Rightarrow>
          Some \<lparr>mh_moduleName = group m 1,
                mh_namespace = (case ns of None \<Rightarrow> None | Some n \<Rightarrow> group n 1),
                mh_range = range_of text (int (m_index m))
                             (int (m_index m) + int (length (m0 text m))),
                mh_rawLine = m0 text m\<rparr>)"

text \<open>
  \<^verbatim>\<open>for (const m of text.matchAll(IMPORT_RE)) imports.push({ name: m[1], rawLine: m[0],
    range: { start: idxToPos(text, m.index!), end: idxToPos(text, m.index! + m[0].length) } });\<close>
\<close>

definition parse_imports :: "string \<Rightarrow> ImportNode list" where
  "parse_imports text =
     map (\<lambda>m. \<lparr>imp_name = group_str m 1,
                imp_range = range_of text (int (m_index m))
                              (int (m_index m) + int (length (m0 text m))),
                imp_rawLine = m0 text m\<rparr>)
       (exec_all IMPORT_RE text 0)"

text \<open>
  \<^verbatim>\<open>const open = text.indexOf('{', tm.index), close = findMatchingBrace(text, open);
  const body = text.slice(open + 1, close);\<close>
\<close>

definition block_close :: "string \<Rightarrow> rmatch \<Rightarrow> int" where
  "block_close text m = findMatchingBrace text (indexOf text (CHR ''{'') (m_index m))"

definition block_body :: "string \<Rightarrow> rmatch \<Rightarrow> string" where
  "block_body text m =
     js_slice text (indexOf text (CHR ''{'') (m_index m) + 1) (block_close text m)"

definition parse_typedefs :: "string \<Rightarrow> TypedefNode list" where
  "parse_typedefs text =
     map (\<lambda>tm. \<lparr>td_name = group_str tm 1,
                 td_range = range_of text (int (m_index tm)) (block_close text tm + 1),
                 td_rawLine = m0 text tm,
                 td_afterLines = first_lines (block_body text tm)\<rparr>)
       (exec_all TYPEDEF_START_RE text 0)"

text \<open>
  \<^verbatim>\<open>afterLines: text.slice(m.index! + m[0].length).split('\n').slice(0, 10).join('\n')\<close>
\<close>

definition parse_statuses :: "string \<Rightarrow> StatusNode list" where
  "parse_statuses text =
     map (\<lambda>m. \<lparr>st_value = group_str m 1,
                st_range = range_of text (int (m_index m))
                             (int (m_index m) + int (length (m0 text m))),
                st_rawLine = m0 text m,
                st_afterLines =
                  first_lines (js_slice_from text (int (m_index m) + int (length (m0 text m))))\<rparr>)
       (exec_all STATUS_RE text 0)"

text \<open>
  \<^verbatim>\<open>const keys = KEY_RE.exec(body)?.[1].trim().split(/\s+/) || [];
  const children = [...body.matchAll(LEAF_RE)].map(m => m[1]);\<close>
\<close>

definition parse_lists :: "string \<Rightarrow> ListNode list" where
  "parse_lists text =
     map (\<lambda>lm.
            let body = block_body text lm in
            \<lparr>ls_line = line (idxToPos text (int (m_index lm))),
             ls_range = range_of text (int (m_index lm)) (block_close text lm + 1),
             ls_key = (case search KEY_RE body 0 of
                         None \<Rightarrow> []
                       | Some k \<Rightarrow> split_space (trim (group_str k 1))),
             ls_children = map (\<lambda>m. group_str m 1) (exec_all LEAF_RE body 0),
             ls_afterLines = first_lines body\<rparr>)
       (exec_all LIST_START_RE text 0)"

text \<open>
  The deviation map is a JavaScript \<open>Map\<close>, which keeps its keys in the order of their
  first insertion: an association list, in which \<open>set\<close> replaces the value of a key in
  place and puts a new key last.
\<close>

type_synonym 'v jsmap = "(string \<times> 'v) list"

definition map_get :: "'v jsmap \<Rightarrow> string \<Rightarrow> 'v option" where
  "map_get m k = map_of m k"

fun map_set :: "'v jsmap \<Rightarrow> string \<Rightarrow> 'v \<Rightarrow> 'v jsmap" where
  "map_set [] k v = [(k, v)]"
| "map_set (p # ps) k v = (if fst p = k then (k, v) # ps else p # map_set ps k v)"

definition map_values :: "'v jsmap \<Rightarrow> 'v list" where
  "map_values m = map snd m"

text \<open>
  \<^verbatim>\<open>while ((dm = DEVIATION_START_RE.exec(text))) {
    const target = dm[1];
    const open = text.indexOf('{', dm.index), close = findMatchingBrace(text, open);
    const node = { target, range: { start: idxToPos(text, dm.index), end: idxToPos(text, close + 1) },
                   duplicate: false };
    const arr = deviationMap.get(target) || [];
    arr.push(node); deviationMap.set(target, arr); }\<close>
\<close>

definition deviation_node :: "string \<Rightarrow> rmatch \<Rightarrow> DeviationNode" where
  "deviation_node text dm =
     \<lparr>dev_target = group_str dm 1,
      dev_range = range_of text (int (m_index dm)) (block_close text dm + 1),
      dev_duplicate = False\<rparr>"

fun collect_deviations ::
  "string \<Rightarrow> rmatch list \<Rightarrow> DeviationNode list jsmap \<Rightarrow> DeviationNode list jsmap" where
  "collect_deviations text [] deviationMap = deviationMap"
| "collect_deviations text (dm # dms) deviationMap =
     (let node = deviation_node text dm;
          arr = (case map_get deviationMap (dev_target node) of Some a \<Rightarrow> a | None \<Rightarrow> [])
      in collect_deviations text dms (map_set deviationMap (dev_target node) (arr @ [node])))"

text \<open>\<^verbatim>\<open>if (arr.length > 1) arr.slice(1).forEach(n => n.duplicate = true);\<close>\<close>

definition mark_duplicates :: "DeviationNode list \<Rightarrow> DeviationNode list" where
  "mark_duplicates arr =
     (if length arr > 1 then hd arr # map (\<lambda>n. n\<lparr>dev_duplicate := True\<rparr>) (tl arr) else arr)"

text \<open>\<^verbatim>\<open>const deviations = [...deviationMap.values()].flat();\<close>\<close>

definition parse_deviations :: "string \<Rightarrow> DeviationNode list" where
  "parse_deviations text =
     concat (map mark_duplicates
       (map_values (collect_deviations text (exec_all DEVIATION_START_RE text 0) [])))"

definition parse_blocks :: "string \<Rightarrow> BlockNode list" where
  "parse_blocks text =
     map (\<lambda>bm. \<lparr>bl_keyword = group_str bm 1, bl_name = group_str bm 2,
                 bl_range = range_of text (int (m_index bm)) (block_close text bm + 1),
                 bl_rawLine = m0 text bm,
                 bl_afterLines = first_lines (block_body text bm)\<rparr>)
       (exec_all DESC_BLOCK_RE text 0)"

definition parse_constraintNodes :: "string \<Rightarrow> ConstraintNode list" where
  "parse_constraintNodes text =
     map (\<lambda>cm.
            let body = block_body text cm in
            \<lparr>cn_keyword = group_str cm 1, cn_name = group_str cm 2,
             cn_range = range_of text (int (m_index cm)) (block_close text cm + 1),
             cn_hasMust = (search (spaced_word_RE ''must'') body 0 \<noteq> None),
             cn_hasWhen = (search (spaced_word_RE ''when'') body 0 \<noteq> None),
             cn_hasDesc = (search (spaced_word_RE ''description'') body 0 \<noteq> None)\<rparr>)
       (exec_all CONSTRAINT_START_RE text 0)"

text \<open>\<^verbatim>\<open>imports: imports.length ? imports : undefined\<close>, and so for every collection.\<close>

definition non_empty :: "'a list \<Rightarrow> 'a list option" where
  "non_empty xs = (if xs = [] then None else Some xs)"

definition parseYang :: "string \<Rightarrow> Ast" where
  "parseYang text =
     \<lparr>ast_moduleHeader = parse_moduleHeader text,
      ast_imports = non_empty (parse_imports text),
      ast_typedefs = non_empty (parse_typedefs text),
      ast_statuses = non_empty (parse_statuses text),
      ast_lists = non_empty (parse_lists text),
      ast_blocks = non_empty (parse_blocks text),
      ast_deviations = non_empty (parse_deviations text),
      ast_constraintNodes = non_empty (parse_constraintNodes text)\<rparr>"

text \<open>
  How the optional collections of an \<open>Ast\<close> are read (\<^verbatim>\<open>ast.imports?.forEach(...)\<close>):
  an absent one has no nodes.
\<close>

definition nodes_of :: "'a list option \<Rightarrow> 'a list" where
  "nodes_of c = (case c of None \<Rightarrow> [] | Some xs \<Rightarrow> xs)"

section \<open>The rule engine (ruleEngine.ts)\<close>

subsection \<open>The predicate library\<close>

text \<open>
  \<^verbatim>\<open>Array.prototype.some((k, i) => ...)\<close> visits the elements with their indices, in
  order, and stops at the first one for which the callback is true.
\<close>

fun some_indexed :: "('a \<Rightarrow> nat \<Rightarrow> bool) \<Rightarrow> 'a list \<Rightarrow> nat \<Rightarrow> bool" where
  "some_indexed p [] i = False"
| "some_indexed p (k # ks) i = (if p k i then True else some_indexed p ks (Suc i))"

text \<open>
  \<^verbatim>\<open>(lst: {key: string[]; children: string[]}) => lst.key.some((k, i) => lst.children[i] !== k)\<close>:
  \<open>lst.children[i]\<close> is \<open>undefined\<close> beyond the end of \<open>children\<close>, and
  \<open>undefined !== k\<close> is true for a string \<open>k\<close>.
\<close>

definition keyOrderInvalid :: "ListNode \<Rightarrow> bool" where
  "keyOrderInvalid lst =
     some_indexed (\<lambda>k i. at_index (ls_children lst) i \<noteq> Some k) (ls_key lst) 0"

subsection \<open>Rules, compiled rules and diagnostics\<close>

text \<open>
  \<^verbatim>\<open>interface RuleYaml { id; description; severity; scope; when }\<close>; the severity and the
  scope are the strings of the rule file.
\<close>

record RuleYaml =
  rule_id :: string
  rule_description :: string
  rule_severity :: string
  rule_scope :: string
  rule_when :: string

text \<open>A thrown JavaScript value, with the text that \<^verbatim>\<open>`${e}`\<close> gives it.\<close>

datatype exn = Exn string

text \<open>
  The context a compiled expression is evaluated in: the fields of the Ast
  (\<^verbatim>\<open>const ctx = {...ast}\<close>) and, except for the module header, one more key named after
  the scope that holds the current node (\<^verbatim>\<open>{...ctx, import: n}\<close>).
\<close>

datatype binding =
    ImportB ImportNode
  | TypedefB TypedefNode
  | StatusB StatusNode
  | ListB ListNode
  | NodeB ConstraintNode
  | DeviationB DeviationNode
  | BlockB BlockNode

record evalContext =
  ctx_ast :: Ast
  ctx_node :: "binding option"

text \<open>
  \<^verbatim>\<open>type Compiled = {rule: RuleYaml; expr: ReturnType<typeof JexlLib.compile>}\<close>. The
  compiled expression is opaque: \<open>expr.evalSync(context)\<close> throws or returns a value, of
  which \<open>validate\<close> reads only whether it is truthy.
\<close>

record Compiled =
  c_rule :: RuleYaml
  c_expr :: "evalContext \<Rightarrow> exn + bool"

datatype DiagnosticSeverity = Error | Warning | Information

text \<open>
  \<open>Diagnostic\<close> of the language-server protocol; \<open>data\<close> is \<open>undefined\<close> or
  \<^verbatim>\<open>{groupId: target}\<close>.
\<close>

record Diagnostic =
  d_range :: Range
  d_message :: string
  d_severity :: DiagnosticSeverity
  d_source :: string
  d_data :: "string option"

text \<open>The messages shown through \<open>conn.window\<close>, in the order they were shown.\<close>

datatype message = ErrorMessage string | InformationMessage string

text \<open>
  The state of the engine: \<open>this.compiled\<close>, the messages shown so far, and the
  module-level \<^verbatim>\<open>deviationMap = new Map<string, Range[]>()\<close>.
\<close>

record RuleEngine =
  compiled :: "Compiled list"
  messages :: "message list"
  deviationMap :: "Range list jsmap"

subsection \<open>reload\<close>

text \<open>
  What \<open>reload\<close> calls outside the engine: \<open>path.join\<close>, which returns the path it
  builds, and, each call throwing or returning, \<open>fs.readFileSync\<close>, \<open>JSON.parse\<close>,
  \<open>new Ajv(...).compile\<close> (which gives the validator; a validator returns true, or false
  with \<open>validate.errors\<close>, an array of messages or \<open>null\<close>), \<open>yaml.load\<close>, reading
  \<open>ruleDoc.rules\<close> as an array of rules, and \<open>JexlLib.compile\<close>. The types \<open>'j\<close> and \<open>'y\<close>
  are the parsed schema and the parsed rule document.
\<close>

datatype verdict = Valid | Invalid "string list option"

record ('j, 'y) world =
  path_join :: "string list \<Rightarrow> string"
  readFileSync :: "string \<Rightarrow> exn + string"
  JSON_parse :: "string \<Rightarrow> exn + 'j"
  ajv_compile :: "'j \<Rightarrow> exn + ('y \<Rightarrow> exn + verdict)"
  yaml_load :: "string \<Rightarrow> exn + 'y"
  rules_of :: "'y \<Rightarrow> exn + RuleYaml list"
  jexl_compile :: "string \<Rightarrow> exn + (evalContext \<Rightarrow> exn + bool)"

text \<open>\<^verbatim>\<open>path.join(this.workspace, 'ruleSets', name)\<close>\<close>

definition rule_path :: "('j, 'y) world \<Rightarrow> string \<Rightarrow> string \<Rightarrow> string" where
  "rule_path w workspace name = path_join w [workspace, ''ruleSets'', name]"

text \<open>The decimal digits of a number, for \<^verbatim>\<open>`Loaded ${rules.length} rules ...`\<close>.\<close>

fun show_nat :: "nat \<Rightarrow> string" where
  "show_nat n =
     (if n < 10 then [digits ! n] else show_nat (n div 10) @ [digits ! (n mod 10)])"

declare show_nat.simps [simp del]

text \<open>
  \<^verbatim>\<open>rules.map(r => ({rule: r, expr: JexlLib.compile(r.when)}))\<close>: the first expression
  that does not compile throws.
\<close>

fun compile_rules ::
  "(string \<Rightarrow> exn + (evalContext \<Rightarrow> exn + bool)) \<Rightarrow> RuleYaml list \<Rightarrow> exn + Compiled list" where
  "compile_rules cmpl [] = Inr []"
| "compile_rules cmpl (r # rs) =
     (case cmpl (rule_when r) of
        Inl e \<Rightarrow> Inl e
      | Inr ex \<Rightarrow>
          (case compile_rules cmpl rs of
             Inl e \<Rightarrow> Inl e
           | Inr cs \<Rightarrow> Inr (\<lparr>c_rule = r, c_expr = ex\<rparr> # cs)))"

text \<open>
  The body of the \<open>try\<close> block of \<open>reload\<close>: the engine it leaves, or the value thrown.
  Nothing of the engine has changed when a call throws.
  \<^verbatim>\<open>const validate = new Ajv({allErrors: true}).compile(JSON.parse(fs.readFileSync(schemaFile, 'utf8')));
  const ruleDoc = yaml.load(fs.readFileSync(ruleFile, 'utf8'));
  if (!validate(ruleDoc)) {
    const msg = 'Rule schema error: ' + (validate.errors ?? []).map(e => e.message).join('; ');
    this.conn.window.showErrorMessage(msg); this.compiled = []; return; }
  const rules = (ruleDoc as any).rules as RuleYaml[];
  this.compiled = rules.map(r => ({rule: r, expr: JexlLib.compile(r.when)}));
  this.conn.window.showInformationMessage(`Loaded ${rules.length} rules from create.yaml`);\<close>
\<close>

definition reload_try :: "('j, 'y) world \<Rightarrow> string \<Rightarrow> RuleEngine \<Rightarrow> exn + RuleEngine" where
  "reload_try w workspace eng =
     (case readFileSync w (rule_path w workspace ''rule-Schema.json'') of
        Inl e \<Rightarrow> Inl e
      | Inr schemaText \<Rightarrow>
     (case JSON_parse w schemaText of
        Inl e \<Rightarrow> Inl e
      | Inr schema \<Rightarrow>
     (case ajv_compile w schema of
        Inl e \<Rightarrow> Inl e
      | Inr validate \<Rightarrow>
     (case readFileSync w (rule_path w workspace ''create.yaml'') of
        Inl e \<Rightarrow> Inl e
      | Inr ruleText \<Rightarrow>
     (case yaml_load w ruleText of
        Inl e \<Rightarrow> Inl e
      | Inr ruleDoc \<Rightarrow>
     (case validate ruleDoc of
        Inl e \<Rightarrow> Inl e
      | Inr (Invalid errors) \<Rightarrow>
          Inr (eng\<lparr>messages := messages eng @
                     [ErrorMessage (''Rule schema error: '' @
                        join_with ''; '' (case errors of None \<Rightarrow> [] | Some es \<Rightarrow> es))],
                   compiled := []\<rparr>)
      | Inr Valid \<Rightarrow>
     (case rules_of w ruleDoc of
        Inl e \<Rightarrow> Inl e
      | Inr rules \<Rightarrow>
     (case compile_rules (jexl_compile w) rules of
        Inl e \<Rightarrow> Inl e
      | Inr cs \<Rightarrow>
          Inr (eng\<lparr>compiled := cs,
                   messages := messages eng @
                     [InformationMessage (''Loaded '' @ show_nat (length rules) @
                        '' rules from create.yaml'')]\<rparr>)))))))))"

text \<open>
  \<^verbatim>\<open>try { ... } catch (e) { this.conn.window.showErrorMessage(`Rule reload error: ${e}`);
  this.compiled = []; }\<close>
\<close>

definition reload :: "('j, 'y) world \<Rightarrow> string \<Rightarrow> RuleEngine \<Rightarrow> RuleEngine" where
  "reload w workspace eng =
     (case reload_try w workspace eng of
        Inr eng' \<Rightarrow> eng'
      | Inl (Exn e) \<Rightarrow>
          eng\<lparr>messages := messages eng @ [ErrorMessage (''Rule reload error: '' @ e)],
              compiled := []\<rparr>)"

subsection \<open>validate\<close>

text \<open>
  \<^verbatim>\<open>const push = (rule, range, extra?) => out.push({ range, message: rule.description,
    severity: rule.severity === 'error' ? DiagnosticSeverity.Error :
              rule.severity === 'warning' ? DiagnosticSeverity.Warning : DiagnosticSeverity.Information,
    source: `yang-lint:${rule.id}`, data: extra });\<close>
\<close>

definition diagnostic :: "RuleYaml \<Rightarrow> Range \<Rightarrow> string option \<Rightarrow> Diagnostic" where
  "diagnostic rule rng extra =
     \<lparr>d_range = rng, d_message = rule_description rule,
      d_severity = (if rule_severity rule = ''error'' then Error
                    else if rule_severity rule = ''warning'' then Warning
                    else Information),
      d_source = ''yang-lint:'' @ rule_id rule,
      d_data = extra\<rparr>"

definition push :: "RuleYaml \<Rightarrow> Range \<Rightarrow> string option \<Rightarrow> Diagnostic list \<Rightarrow> Diagnostic list" where
  "push rule rng extra out = out @ [diagnostic rule rng extra]"

text \<open>
  \<^verbatim>\<open>ast.deviations?.forEach(d => { const arr = deviationMap.get(d.target) || [];
    arr.push(d.range); deviationMap.set(d.target, arr); });\<close>
\<close>

fun fill_deviationMap :: "DeviationNode list \<Rightarrow> Range list jsmap \<Rightarrow> Range list jsmap" where
  "fill_deviationMap [] dm = dm"
| "fill_deviationMap (d # ds) dm =
     (let arr = (case map_get dm (dev_target d) of Some a \<Rightarrow> a | None \<Rightarrow> [])
      in fill_deviationMap ds (map_set dm (dev_target d) (arr @ [dev_range d])))"

text \<open>
  \<^verbatim>\<open>nodes?.forEach(n => expr.evalSync({...ctx, key: n}) && push(rule, n.range, extra))\<close>:
  an evaluation that throws ends the loop, and the exception leaves \<open>validate\<close>, which
  has no handler.
\<close>

fun forEach_eval ::
  "(evalContext \<Rightarrow> exn + bool) \<Rightarrow> ('n \<Rightarrow> evalContext) \<Rightarrow> ('n \<Rightarrow> Diagnostic list \<Rightarrow> Diagnostic list) \<Rightarrow>
   'n list \<Rightarrow> Diagnostic list \<Rightarrow> exn + Diagnostic list" where
  "forEach_eval expr ctx_of push_n [] out = Inr out"
| "forEach_eval expr ctx_of push_n (n # ns) out =
     (case expr (ctx_of n) of
        Inl e \<Rightarrow> Inl e
      | Inr truthy \<Rightarrow> forEach_eval expr ctx_of push_n ns (if truthy then push_n n out else out))"

text \<open>\<^verbatim>\<open>const GENERIC_SCOPES = new Set(['anyxml', 'augment', ...])\<close>\<close>

definition GENERIC_SCOPES :: "string list" where
  "GENERIC_SCOPES = [''anyxml'', ''augment'', ''choice'', ''container'', ''extension'',
     ''feature'', ''notification'', ''rpc'']"

text \<open>The body of \<^verbatim>\<open>for (const {rule, expr} of this.compiled) switch (rule.scope) ...\<close>\<close>

definition eval_rule :: "Ast \<Rightarrow> Compiled \<Rightarrow> Diagnostic list \<Rightarrow> exn + Diagnostic list" where
  "eval_rule ast c out =
     (let rule = c_rule c; expr = c_expr c; scope = rule_scope rule;
          with_node = (\<lambda>b. \<lparr>ctx_ast = ast, ctx_node = Some b\<rparr>)
      in
      if scope = ''module-header'' then
        (case ast_moduleHeader ast of
           None \<Rightarrow> Inr out
         | Some h \<Rightarrow>
             (case expr \<lparr>ctx_ast = ast, ctx_node = None\<rparr> of
                Inl e \<Rightarrow> Inl e
              | Inr truthy \<Rightarrow> Inr (if truthy then push rule (mh_range h) None out else out)))
      else if scope = ''import'' then
        forEach_eval expr (\<lambda>n. with_node (ImportB n)) (\<lambda>n. push rule (imp_range n) None)
          (nodes_of (ast_imports ast)) out
      else if scope = ''typedef'' then
        forEach_eval expr (\<lambda>n. with_node (TypedefB n)) (\<lambda>n. push rule (td_range n) None)
          (nodes_of (ast_typedefs ast)) out
      else if scope = ''status'' then
        forEach_eval expr (\<lambda>n. with_node (StatusB n)) (\<lambda>n. push rule (st_range n) None)
          (nodes_of (ast_statuses ast)) out
      else if scope = ''list'' then
        forEach_eval expr (\<lambda>n. with_node (ListB n)) (\<lambda>n. push rule (ls_range n) None)
          (nodes_of (ast_lists ast)) out
      else if scope = ''constraint-node'' then
        forEach_eval expr (\<lambda>n. with_node (NodeB n)) (\<lambda>n. push rule (cn_range n) None)
          (nodes_of (ast_constraintNodes ast)) out
      else if scope = ''deviation'' then
        forEach_eval expr (\<lambda>n. with_node (DeviationB n))
          (\<lambda>n. push rule (dev_range n) (Some (dev_target n)))
          (nodes_of (ast_deviations ast)) out
      else if scope \<in> set GENERIC_SCOPES then
        forEach_eval expr (\<lambda>b. with_node (BlockB b)) (\<lambda>b. push rule (bl_range b) None)
          (filter (\<lambda>b. bl_keyword b = scope) (nodes_of (ast_blocks ast))) out
      else Inr out)"

fun validate_rules :: "Ast \<Rightarrow> Compiled list \<Rightarrow> Diagnostic list \<Rightarrow> exn + Diagnostic list" where
  "validate_rules ast [] out = Inr out"
| "validate_rules ast (c # cs) out =
     (case eval_rule ast c out of
        Inl e \<Rightarrow> Inl e
      | Inr out' \<Rightarrow> validate_rules ast cs out')"

text \<open>
  \<open>validate(uri, ast)\<close>: the engine with the deviation map rebuilt
  (\<^verbatim>\<open>deviationMap.clear()\<close>, then the filling), and the diagnostics returned or the value
  thrown.
\<close>

definition validate :: "RuleEngine \<Rightarrow> string \<Rightarrow> Ast \<Rightarrow> RuleEngine \<times> (exn + Diagnostic list)" where
  "validate eng uri ast =
     (eng\<lparr>deviationMap := fill_deviationMap (nodes_of (ast_deviations ast)) []\<rparr>,
      validate_rules ast (compiled eng) [])"

text \<open>
  \<^verbatim>\<open>constructor(private workspace, private conn) { this.reload(); }\<close> with
  \<^verbatim>\<open>private compiled: Compiled[] = []\<close>.
\<close>

definition new_RuleEngine :: "('j, 'y) world \<Rightarrow> string \<Rightarrow> RuleEngine" where
  "new_RuleEngine w workspace =
     reload w workspace \<lparr>compiled = [], messages = [], deviationMap = []\<rparr>"

section \<open>The quick fix (providers/quickfix.ts)\<close>

text \<open>\<open>TextEdit\<close> and \<open>CodeAction\<close> of the language-server protocol.\<close>

record TextEdit =
  te_range :: Range
  te_newText :: string

datatype CodeActionKind = QuickFix

text \<open>\<open>ca_changes\<close> is \<^verbatim>\<open>edit: { changes: { [uri]: edits } }\<close>.\<close>

record CodeAction =
  ca_title :: string
  ca_kind :: CodeActionKind
  ca_diagnostics :: "Diagnostic list"
  ca_changes :: "(string \<times> TextEdit list) list"

text \<open>Reading a property of \<open>undefined\<close> throws a \<open>TypeError\<close>.\<close>

definition type_error :: exn where
  "type_error = Exn ''TypeError''"

text \<open>
  \<^verbatim>\<open>const lines = text.split('\n'); let off = 0;
  for (let i = 0; i < pos.line; i++) off += lines[i].length + 1;
  return off + pos.character;\<close>
  The loop reads \<open>lines[i].length\<close>, which throws when the text has no line \<open>i\<close>.
\<close>

function offsetAt_loop :: "string list \<Rightarrow> nat \<Rightarrow> nat \<Rightarrow> nat \<Rightarrow> exn + nat" where
  "offsetAt_loop lines ln i off =
     (if i < ln then
        (case at_index lines i of
           None \<Rightarrow> Inl type_error
         | Some l \<Rightarrow> offsetAt_loop lines ln (i + 1) (off + (length l + 1)))
      else Inr off)"
  by pat_completeness auto
termination
  by (relation "measure (\<lambda>(lines, ln, i, off). ln - i)") auto

declare offsetAt_loop.simps [simp del]

definition offsetAt :: "string \<Rightarrow> Position \<Rightarrow> exn + nat" where
  "offsetAt text pos =
     (case offsetAt_loop (split_on (CHR 0x0A) text) (line pos) 0 0 of
        Inl e \<Rightarrow> Inl e
      | Inr off \<Rightarrow> Inr (off + character pos))"

text \<open>\<^verbatim>\<open>return text.slice(offsetAt(text, r.start), offsetAt(text, r.end));\<close>\<close>

definition textSlice :: "string \<Rightarrow> Range \<Rightarrow> exn + string" where
  "textSlice text r =
     (case offsetAt text (range_start r) of
        Inl e \<Rightarrow> Inl e
      | Inr a \<Rightarrow>
          (case offsetAt text (range_end r) of
             Inl e \<Rightarrow> Inl e
           | Inr b \<Rightarrow> Inr (js_slice text (int a) (int b))))"

text \<open>
  \<^verbatim>\<open>[...ranges].sort((a, b) => (a.start.line - b.start.line) || (a.start.character - b.start.character))\<close>.
  \<open>Array.prototype.sort\<close> is stable and the comparator is a total preorder, so the
  result is the stable sort by it: insertion from the right, each element put before
  the first element it does not come after.
\<close>

definition compare_start :: "Range \<Rightarrow> Range \<Rightarrow> int" where
  "compare_start a b =
     (let by_line = int (line (range_start a)) - int (line (range_start b))
      in if by_line \<noteq> 0 then by_line
         else int (character (range_start a)) - int (character (range_start b)))"

fun insert_sorted :: "Range \<Rightarrow> Range list \<Rightarrow> Range list" where
  "insert_sorted x [] = [x]"
| "insert_sorted x (y # ys) =
     (if compare_start x y \<le> 0 then x # y # ys else y # insert_sorted x ys)"

definition sort_ranges :: "Range list \<Rightarrow> Range list" where
  "sort_ranges rs = foldr insert_sorted rs []"

text \<open>\<^verbatim>\<open>s.match(/^[ \t]*/)?.[0] ?? ''\<close>: the blanks and tabs \<open>s\<close> starts with.\<close>

definition leading_blanks :: "string \<Rightarrow> string" where
  "leading_blanks s = takeWhile (in_cls blank) s"

text \<open>
  \<^verbatim>\<open>body.replace(/^\n+|\s+$/g, '')\<close>, without the \<open>m\<close> flag: the newlines at the start
  of the string and the white space at its end are removed.
\<close>

definition strip_body :: "string \<Rightarrow> string" where
  "strip_body body = rev (dropWhile is_space (rev (dropWhile (\<lambda>c. c = CHR 0x0A) body)))"

text \<open>
  \<^verbatim>\<open>Math.min(...lines.filter(l => l.trim() !== '').map(l => l.match(/^[ \t]*/)?.[0].length ?? 0))\<close>:
  \<open>Infinity\<close>, here \<open>None\<close>, when no line is left; \<open>l.slice(Infinity)\<close> is empty.
\<close>

definition min_indent :: "string list \<Rightarrow> nat option" where
  "min_indent lines =
     (case map (\<lambda>l. length (leading_blanks l)) (filter (\<lambda>l. trim l \<noteq> []) lines) of
        [] \<Rightarrow> None
      | w # ws \<Rightarrow> Some (foldl min w ws))"

definition slice_indent :: "nat option \<Rightarrow> string \<Rightarrow> string" where
  "slice_indent minIndent l = (case minIndent of None \<Rightarrow> [] | Some n \<Rightarrow> drop n l)"

text \<open>
  The callback of \<open>sorted.map\<close>, from the text of one occurrence:
  \<^verbatim>\<open>const open = raw.indexOf('{'), close = raw.lastIndexOf('}');
  const body = raw.slice(open + 1, close);
  const lines = body.replace(/^\n+|\s+$/g, '').split('\n');
  const minIndent = ...;
  return lines.map(l => innerIndent + l.slice(minIndent)).join('\n');\<close>
\<close>

definition reindent_body :: "string \<Rightarrow> string \<Rightarrow> string" where
  "reindent_body innerIndent raw =
     (let body = js_slice raw (indexOf raw (CHR ''{'') 0 + 1) (lastIndexOf raw (CHR ''}''));
          lines = split_on (CHR 0x0A) (strip_body body);
          minIndent = min_indent lines
      in join_with [CHR 0x0A] (map (\<lambda>l. innerIndent @ slice_indent minIndent l) lines))"

text \<open>\<^verbatim>\<open>sorted.map(r => { const raw = textSlice(text, r); ... })\<close>; \<open>textSlice\<close> may throw.\<close>

fun map_bodies :: "string \<Rightarrow> string \<Rightarrow> Range list \<Rightarrow> exn + string list" where
  "map_bodies text innerIndent [] = Inr []"
| "map_bodies text innerIndent (r # rs) =
     (case textSlice text r of
        Inl e \<Rightarrow> Inl e
      | Inr raw \<Rightarrow>
          (case map_bodies text innerIndent rs of
             Inl e \<Rightarrow> Inl e
           | Inr bodies \<Rightarrow> Inr (reindent_body innerIndent raw # bodies)))"

text \<open>
  \<open>buildDeviationFix(diag, uri, text)\<close>, reading the deviation map of the engine: the code
  action, \<open>null\<close> (here \<open>None\<close>), or the value thrown.
  \<^verbatim>\<open>const target = String(diag.data.groupId);
  const ranges = deviationMap.get(target);
  if (!ranges || ranges.length < 2) return null;
  const sorted = [...ranges].sort(...);
  const lineStartOff = offsetAt(text, { line: sorted[0].start.line, character: 0 });
  const lineEndOff = text.indexOf('\n', lineStartOff) === -1 ? text.length : text.indexOf('\n', lineStartOff);
  const firstLine = text.slice(lineStartOff, lineEndOff);
  const baseIndent = firstLine.match(/^[ \t]*/)?.[0] ?? '';
  const innerIndent = baseIndent + '  ';
  const bodies = sorted.map(...);
  const merged = `${baseIndent}deviation ${target} {\n` + bodies.join('\n\n') + `\n${baseIndent}}`;
  edits.push(TextEdit.replace(sorted[0], merged));
  sorted.slice(1).forEach(r => edits.push({ range: r, newText: '' }));
  return { title: 'Merge duplicate deviations', kind: CodeActionKind.QuickFix,
           diagnostics: [diag], edit: { changes: { [uri]: edits } } };\<close>
  A diagnostic without data makes \<open>diag.data.groupId\<close> throw.
\<close>

definition buildDeviationFix ::
  "Range list jsmap \<Rightarrow> Diagnostic \<Rightarrow> string \<Rightarrow> string \<Rightarrow> exn + CodeAction option" where
  "buildDeviationFix dmap diag uri text =
     (case d_data diag of
        None \<Rightarrow> Inl type_error
      | Some target \<Rightarrow>
     (case map_get dmap target of
        None \<Rightarrow> Inr None
      | Some ranges \<Rightarrow>
          if length ranges < 2 then Inr None
          else
            (let sorted = sort_ranges ranges in
             case offsetAt text \<lparr>line = line (range_start (hd sorted)), character = 0\<rparr> of
               Inl e \<Rightarrow> Inl e
             | Inr lineStartOff \<Rightarrow>
                 (let lineEndOff =
                        (if indexOf text (CHR 0x0A) lineStartOff = - 1 then int (length text)
                         else indexOf text (CHR 0x0A) lineStartOff);
                      firstLine = js_slice text (int lineStartOff) lineEndOff;
                      baseIndent = leading_blanks firstLine;
                      innerIndent = baseIndent @ ''  ''
                  in case map_bodies text innerIndent sorted of
                       Inl e \<Rightarrow> Inl e
                     | Inr bodies \<Rightarrow>
                         (let merged = baseIndent @ ''deviation '' @ target @ '' {'' @ [CHR 0x0A]
                                         @ join_with [CHR 0x0A, CHR 0x0A] bodies
                                         @ [CHR 0x0A] @ baseIndent @ ''}'';
                              edits = \<lparr>te_range = hd sorted, te_newText = merged\<rparr>
                                        # map (\<lambda>r. \<lparr>te_range = r, te_newText = []\<rparr>) (tl sorted)
                          in Inr (Some \<lparr>ca_title = ''Merge duplicate deviations'',
                                        ca_kind = QuickFix,
                                        ca_diagnostics = [diag],
                                        ca_changes = [(uri, edits)]\<rparr>))))))"

text \<open>
  The handler of \<open>connection.onCodeAction\<close> for an open document with the text \<open>text\<close>:
  \<^verbatim>\<open>for (const diag of params.context.diagnostics)
    if (diag.source === 'yang-lint:deviation-unique-target' && diag.data?.groupId) {
      const fix = buildDeviationFix(diag, uri, doc.getText()); if (fix) fixes.push(fix); }\<close>
  An empty \<open>groupId\<close> is falsy.
\<close>

fun onCodeAction ::
  "Range list jsmap \<Rightarrow> string \<Rightarrow> string \<Rightarrow> Diagnostic list \<Rightarrow> exn + CodeAction list" where
  "onCodeAction dmap uri text [] = Inr []"
| "onCodeAction dmap uri text (diag # diags) =
     (if d_source diag = ''yang-lint:deviation-unique-target''
         \<and> d_data diag \<noteq> None \<and> d_data diag \<noteq> Some [] then
        (case buildDeviationFix dmap diag uri text of
           Inl e \<Rightarrow> Inl e
         | Inr fix \<Rightarrow>
             (case onCodeAction dmap uri text diags of
                Inl e \<Rightarrow> Inl e
              | Inr fixes \<Rightarrow> Inr ((case fix of None \<Rightarrow> [] | Some f \<Rightarrow> [f]) @ fixes)))
      else onCodeAction dmap uri text diags)"

section \<open>Specification of the brace matcher\<close>

text \<open>
  The specification's reading of a text: a five-state automaton, in which only a character
  read in state \<open>CODE\<close> is a brace or starts a comment or a string; a line comment ends
  at the newline, a block comment at \<open>*/\<close>, and a string at its closing quote. In a
  string a backslash escapes the character after it, so a backslash-escaped quote does
  not end the string, and the quote after an escaped backslash does.
  \<open>spec_braces st i cs\<close> lists the braces read in state \<open>CODE\<close>, each with its index in
  the text, when the automaton is in state \<open>st\<close> before the characters \<open>cs\<close>, the first
  of which has index \<open>i\<close>.
\<close>

datatype brace = Open | Close

fun spec_braces :: "S \<Rightarrow> nat \<Rightarrow> string \<Rightarrow> (nat \<times> brace) list" where
  "spec_braces st i [] = []"
| "spec_braces CODE i (c # cs) =
     (if c = CHR ''{'' then (i, Open) # spec_braces CODE (i + 1) cs
      else if c = CHR ''}'' then (i, Close) # spec_braces CODE (i + 1) cs
      else if c = CHR ''/'' then
        (case cs of
           [] \<Rightarrow> []
         | d # ds \<Rightarrow>
             if d = CHR ''/'' then spec_braces LINE_COMMENT (i + 2) ds
             else if d = CHR ''*'' then spec_braces BLOCK_COMMENT (i + 2) ds
             else spec_braces CODE (i + 1) cs)
      else if c = CHR 0x22 then spec_braces DQ_STRING (i + 1) cs
      else if c = CHR 0x27 then spec_braces SQ_STRING (i + 1) cs
      else spec_braces CODE (i + 1) cs)"
| "spec_braces LINE_COMMENT i (c # cs) =
     spec_braces (if c = CHR 0x0A then CODE else LINE_COMMENT) (i + 1) cs"
| "spec_braces BLOCK_COMMENT i (c # cs) =
     (case cs of
        [] \<Rightarrow> []
      | d # ds \<Rightarrow>
          if c = CHR ''*'' \<and> d = CHR ''/'' then spec_braces CODE (i + 2) ds
          else spec_braces BLOCK_COMMENT (i + 1) cs)"
| "spec_braces DQ_STRING i (c # cs) =
     (if c = CHR 0x5C then
        (case cs of [] \<Rightarrow> [] | d # ds \<Rightarrow> spec_braces DQ_STRING (i + 2) ds)
      else if c = CHR 0x22 then spec_braces CODE (i + 1) cs
      else spec_braces DQ_STRING (i + 1) cs)"
| "spec_braces SQ_STRING i (c # cs) =
     (if c = CHR 0x5C then
        (case cs of [] \<Rightarrow> [] | d # ds \<Rightarrow> spec_braces SQ_STRING (i + 2) ds)
      else if c = CHR 0x27 then spec_braces CODE (i + 1) cs
      else spec_braces SQ_STRING (i + 1) cs)"

text \<open>
  Balanced brace sequences, by the grammar \<open>B ::= empty | { B } | B B\<close>; the indices the
  braces carry play no role.
\<close>

inductive balanced :: "(nat \<times> brace) list \<Rightarrow> bool" where
  empty: "balanced []"
| nest: "balanced w \<Longrightarrow> balanced ((i, Open) # w @ [(j, Close)])"
| seq: "balanced v \<Longrightarrow> balanced w \<Longrightarrow> balanced (v @ w)"

text \<open>
  The closing brace at index \<open>j\<close> matches the brace opened at \<open>openIdx\<close>: it is a brace of
  the code after \<open>openIdx\<close>, and the braces of the code between the two are balanced.
\<close>

definition matching_close :: "string \<Rightarrow> nat \<Rightarrow> nat \<Rightarrow> bool" where
  "matching_close text openIdx j =
     (\<exists>pre post.
        spec_braces CODE (openIdx + 1) (drop (openIdx + 1) text) = pre @ (j, Close) # post
        \<and> balanced pre)"

text \<open>
  Two sample texts. The first is an opening brace, a space, a string that holds one
  escaped backslash (quote, backslash, backslash, quote), a space, a closing brace, a
  space and \<open>x\<close>: the block closes at index 7. The second is an opening brace, a space,
  the same string, a space, the string \<open>"}"\<close> and a space: its only closing brace stands
  in a string, and the block is never closed.
\<close>

definition closed_after_backslash :: string where
  "closed_after_backslash = ''{ '' @ [CHR 0x22, CHR 0x5C, CHR 0x5C, CHR 0x22] @ '' } x''"

definition open_after_backslash :: string where
  "open_after_backslash =
     ''{ '' @ [CHR 0x22, CHR 0x5C, CHR 0x5C, CHR 0x22] @ '' '' @ [CHR 0x22] @ ''}'' @ [CHR 0x22]
       @ '' ''"

subsection \<open>Auxiliary definitions of the proofs\<close>

text \<open>
  The braces that the loop of \<open>findMatchingBrace\<close> counts: those it reads in state
  \<open>CODE\<close>. In a string the loop looks one character back: a quote ends the string unless
  the character before it is a backslash. \<open>prev\<close> is the character before the first of
  \<open>cs\<close>.
\<close>

fun counted_braces :: "S \<Rightarrow> char option \<Rightarrow> nat \<Rightarrow> string \<Rightarrow> (nat \<times> brace) list" where
  "counted_braces st prev i [] = []"
| "counted_braces CODE prev i (c # cs) =
     (if c = CHR ''{'' then (i, Open) # counted_braces CODE (Some c) (i + 1) cs
      else if c = CHR ''}'' then (i, Close) # counted_braces CODE (Some c) (i + 1) cs
      else if c = CHR ''/'' then
        (case cs of
           [] \<Rightarrow> []
         | d # ds \<Rightarrow>
             if d = CHR ''/'' then counted_braces LINE_COMMENT (Some d) (i + 2) ds
             else if d = CHR ''*'' then counted_braces BLOCK_COMMENT (Some d) (i + 2) ds
             else counted_braces CODE (Some c) (i + 1) cs)
      else if c = CHR 0x22 then counted_braces DQ_STRING (Some c) (i + 1) cs
      else if c = CHR 0x27 then counted_braces SQ_STRING (Some c) (i + 1) cs
      else counted_braces CODE (Some c) (i + 1) cs)"
| "counted_braces LINE_COMMENT prev i (c # cs) =
     counted_braces (if c = CHR 0x0A then CODE else LINE_COMMENT) (Some c) (i + 1) cs"
| "counted_braces BLOCK_COMMENT prev i (c # cs) =
     (case cs of
        [] \<Rightarrow> []
      | d # ds \<Rightarrow>
          if c = CHR ''*'' \<and> d = CHR ''/'' then counted_braces CODE (Some d) (i + 2) ds
          else counted_braces BLOCK_COMMENT (Some c) (i + 1) cs)"
| "counted_braces DQ_STRING prev i (c # cs) =
     counted_braces (if c = CHR 0x22 \<and> prev \<noteq> Some (CHR 0x5C) then CODE else DQ_STRING)
       (Some c) (i + 1) cs"
| "counted_braces SQ_STRING prev i (c # cs) =
     counted_braces (if c = CHR 0x27 \<and> prev \<noteq> Some (CHR 0x5C) then CODE else SQ_STRING)
       (Some c) (i + 1) cs"

text \<open>The depth counter run over a sequence of braces, for the proofs.\<close>

fun close_at :: "int \<Rightarrow> (nat \<times> brace) list \<Rightarrow> nat option" where
  "close_at d [] = None"
| "close_at d ((i, Open) # ts) = close_at (d + 1) ts"
| "close_at d ((i, Close) # ts) = (if d - 1 = 0 then Some i else close_at (d - 1) ts)"

definition scan_result :: "string \<Rightarrow> nat option \<Rightarrow> int" where
  "scan_result text r = (case r of Some j \<Rightarrow> int j | None \<Rightarrow> int (length text) - 1)"

section \<open>Specification of the extractor's collections\<close>

text \<open>Document order of positions: by line, then by character.\<close>

definition pos_less :: "Position \<Rightarrow> Position \<Rightarrow> bool" where
  "pos_less p q = (line p < line q \<or> (line p = line q \<and> character p < character q))"

definition dev_start :: "DeviationNode \<Rightarrow> Position" where
  "dev_start n = range_start (dev_range n)"

text \<open>A collection is in document order when the start positions of its nodes ascend.\<close>

definition document_order :: "Position list \<Rightarrow> bool" where
  "document_order ps = sorted_wrt pos_less ps"

text \<open>The distinct elements of a list, in the order of their first occurrences.\<close>

fun first_occurrences :: "'a list \<Rightarrow> 'a list" where
  "first_occurrences [] = []"
| "first_occurrences (x # xs) = x # removeAll x (first_occurrences xs)"

text \<open>
  Grouping by target path: the nodes of the first target, in the order they have in
  \<open>ds\<close>, then those of the second target, and so on.
\<close>

definition group_by_target :: "DeviationNode list \<Rightarrow> DeviationNode list" where
  "group_by_target ds =
     concat (map (\<lambda>t. filter (\<lambda>n. dev_target n = t) ds)
               (first_occurrences (map dev_target ds)))"

subsection \<open>Auxiliary definitions of the proofs\<close>

text \<open>
  The nodes of the deviation blocks as the loop creates them, in the order of the matches;
  the same list with each node flagged when its target was seen before; and the deviation
  map that holds the nodes \<open>ns\<close>.
\<close>

definition doc_nodes :: "string \<Rightarrow> DeviationNode list" where
  "doc_nodes tx = map (deviation_node tx) (exec_all DEVIATION_START_RE tx 0)"

fun flag_from :: "string list \<Rightarrow> DeviationNode list \<Rightarrow> DeviationNode list" where
  "flag_from seen [] = []"
| "flag_from seen (n # ns) =
     n\<lparr>dev_duplicate := (dev_target n \<in> set seen)\<rparr> # flag_from (dev_target n # seen) ns"

definition groups :: "DeviationNode list \<Rightarrow> DeviationNode list jsmap" where
  "groups ns = map (\<lambda>t. (t, filter (\<lambda>n. dev_target n = t) ns))
                 (first_occurrences (map dev_target ns))"


subsection \<open>Sample documents\<close>

text \<open>
  Three deviation blocks with one target; and two imports between three deviation blocks
  whose targets interleave.
\<close>

definition three_same :: string where
  "three_same =
     ''deviation /a { deviate add { x 1; } }\<newline>deviation /a { }\<newline>deviation /a {\<newline>}''"

definition interleaved :: string where
  "interleaved =
     ''import p;\<newline>deviation /a { }\<newline>import q;\<newline>deviation /b { }\<newline>deviation /a { }''"

text \<open>The module of one line, and the same module with its namespace on a line of its own.\<close>

definition module_one_line :: string where
  "module_one_line = ''module foo { namespace \"urn:x\"; }''"

definition module_two_lines :: string where
  "module_two_lines = ''module foo {\<newline>  namespace \"urn:x\"; }''"

section \<open>Specification of the validation pass\<close>

text \<open>
  The candidate nodes of a rule, from its declared scope: the module header is a scope of
  no or one element, each of the eight generic block keywords selects the blocks of that
  keyword, and every other scope is the collection of the Ast of that name. Each
  candidate is given as the context the predicate is evaluated in (the Ast and the
  binding of the current node under the name of the scope) and the diagnostic a truthy
  result appends (at the range of the node, with the target as payload in the deviation
  scope).
\<close>

definition candidates :: "Ast \<Rightarrow> RuleYaml \<Rightarrow> (evalContext \<times> Diagnostic) list" where
  "candidates ast rule =
     (let scope = rule_scope rule;
          bound = (\<lambda>b. \<lparr>ctx_ast = ast, ctx_node = Some b\<rparr>)
      in
      if scope = ''module-header'' then
        (case ast_moduleHeader ast of
           None \<Rightarrow> []
         | Some h \<Rightarrow> [(\<lparr>ctx_ast = ast, ctx_node = None\<rparr>, diagnostic rule (mh_range h) None)])
      else if scope = ''import'' then
        map (\<lambda>n. (bound (ImportB n), diagnostic rule (imp_range n) None))
          (nodes_of (ast_imports ast))
      else if scope = ''typedef'' then
        map (\<lambda>n. (bound (TypedefB n), diagnostic rule (td_range n) None))
          (nodes_of (ast_typedefs ast))
      else if scope = ''status'' then
        map (\<lambda>n. (bound (StatusB n), diagnostic rule (st_range n) None))
          (nodes_of (ast_statuses ast))
      else if scope = ''list'' then
        map (\<lambda>n. (bound (ListB n), diagnostic rule (ls_range n) None))
          (nodes_of (ast_lists ast))
      else if scope = ''constraint-node'' then
        map (\<lambda>n. (bound (NodeB n), diagnostic rule (cn_range n) None))
          (nodes_of (ast_constraintNodes ast))
      else if scope = ''deviation'' then
        map (\<lambda>n. (bound (DeviationB n), diagnostic rule (dev_range n) (Some (dev_target n))))
          (nodes_of (ast_deviations ast))
      else if scope \<in> set GENERIC_SCOPES then
        map (\<lambda>b. (bound (BlockB b), diagnostic rule (bl_range b) None))
          (filter (\<lambda>b. bl_keyword b = scope) (nodes_of (ast_blocks ast)))
      else [])"

text \<open>
  The (rule, node) pairs of a pass in the order of their enumeration, rule by rule and,
  within a rule, node by node; each pair with the outcome of its predicate and the
  diagnostic it stands for.
\<close>

definition rule_pairs :: "Ast \<Rightarrow> Compiled \<Rightarrow> ((exn + bool) \<times> Diagnostic) list" where
  "rule_pairs ast c = map (\<lambda>(ctx, d). (c_expr c ctx, d)) (candidates ast (c_rule c))"

definition all_pairs :: "Ast \<Rightarrow> Compiled list \<Rightarrow> ((exn + bool) \<times> Diagnostic) list" where
  "all_pairs ast cs = concat (map (rule_pairs ast) cs)"

text \<open>The diagnostics of the pairs whose predicate gave a truthy result.\<close>

definition truthy_diagnostics :: "((exn + bool) \<times> Diagnostic) list \<Rightarrow> Diagnostic list" where
  "truthy_diagnostics ps = map snd (filter (\<lambda>p. fst p = Inr True) ps)"

text \<open>
  The deviation index a pass leaves: for each target the ranges of the deviation nodes of
  that target, in the order of the collection, and nothing for a target without nodes.
\<close>

definition occurrences :: "DeviationNode list \<Rightarrow> string \<Rightarrow> Range list option" where
  "occurrences ds t =
     (if \<exists>n \<in> set ds. dev_target n = t
      then Some (map dev_range (filter (\<lambda>n. dev_target n = t) ds))
      else None)"

text \<open>Running over pairs as the loops do, for the proofs: the first throw ends the run.\<close>

fun run_pairs ::
  "((exn + bool) \<times> Diagnostic) list \<Rightarrow> Diagnostic list \<Rightarrow> exn + Diagnostic list" where
  "run_pairs [] out = Inr out"
| "run_pairs ((Inl e, d) # ps) out = Inl e"
| "run_pairs ((Inr truthy, d) # ps) out = run_pairs ps (if truthy then out @ [d] else out)"

subsection \<open>Sample rules and documents\<close>

text \<open>
  Two imports \<open>A\<close> before \<open>B\<close>; two rules scoped to \<open>import\<close> whose predicates are true
  of every node; and a rule whose predicate throws on the import \<open>A\<close>.
\<close>

definition import_A :: ImportNode where
  "import_A = \<lparr>imp_name = ''A'',
     imp_range = \<lparr>range_start = \<lparr>line = 0, character = 0\<rparr>,
                  range_end = \<lparr>line = 0, character = 9\<rparr>\<rparr>,
     imp_rawLine = ''import A;''\<rparr>"

definition import_B :: ImportNode where
  "import_B = \<lparr>imp_name = ''B'',
     imp_range = \<lparr>range_start = \<lparr>line = 1, character = 0\<rparr>,
                  range_end = \<lparr>line = 1, character = 9\<rparr>\<rparr>,
     imp_rawLine = ''import B;''\<rparr>"

definition two_imports :: Ast where
  "two_imports =
     \<lparr>ast_moduleHeader = None, ast_imports = Some [import_A, import_B], ast_typedefs = None,
      ast_statuses = None, ast_lists = None, ast_blocks = None, ast_deviations = None,
      ast_constraintNodes = None\<rparr>"

definition import_rule :: "string \<Rightarrow> RuleYaml" where
  "import_rule name =
     \<lparr>rule_id = name, rule_description = name, rule_severity = ''warning'',
      rule_scope = ''import'', rule_when = ''true''\<rparr>"

definition always_true :: "evalContext \<Rightarrow> exn + bool" where
  "always_true ctx = Inr True"

definition throws_on_A :: "evalContext \<Rightarrow> exn + bool" where
  "throws_on_A ctx =
     (case ctx_node ctx of
        Some (ImportB n) \<Rightarrow> if imp_name n = ''A'' then Inl (Exn ''TypeError'') else Inr True
      | _ \<Rightarrow> Inr True)"

definition engine_with :: "Compiled list \<Rightarrow> RuleEngine" where
  "engine_with cs = \<lparr>compiled = cs, messages = [], deviationMap = []\<rparr>"

definition R1 :: Compiled where
  "R1 = \<lparr>c_rule = import_rule ''R1'', c_expr = always_true\<rparr>"

definition R2 :: Compiled where
  "R2 = \<lparr>c_rule = import_rule ''R2'', c_expr = always_true\<rparr>"

definition R1_throwing :: Compiled where
  "R1_throwing = \<lparr>c_rule = import_rule ''R1'', c_expr = throws_on_A\<rparr>"

text \<open>The diagnostic of a sample rule at a sample import.\<close>

definition at_import :: "string \<Rightarrow> ImportNode \<Rightarrow> Diagnostic" where
  "at_import name n = diagnostic (import_rule name) (imp_range n) None"

section \<open>Specification of the rule-set load\<close>

text \<open>
  The ways a load fails. A read error: the schema file or the rule file cannot be read.
  A parse error: the text of the schema file is not JSON, or the text of the rule file
  is not YAML. A schema violation: the validator compiled from the schema rejects the
  rule document. A compile error: the schema does not compile, the validator throws, the
  document holds no array of rules, or the expression of a rule does not compile.
\<close>

definition read_error :: "('j, 'y) world \<Rightarrow> string \<Rightarrow> bool" where
  "read_error w workspace =
     (isl (readFileSync w (rule_path w workspace ''rule-Schema.json''))
      \<or> isl (readFileSync w (rule_path w workspace ''create.yaml'')))"

definition parse_error :: "('j, 'y) world \<Rightarrow> string \<Rightarrow> bool" where
  "parse_error w workspace =
     ((case readFileSync w (rule_path w workspace ''rule-Schema.json'') of
         Inl e \<Rightarrow> False | Inr s \<Rightarrow> isl (JSON_parse w s))
      \<or> (case readFileSync w (rule_path w workspace ''create.yaml'') of
            Inl e \<Rightarrow> False | Inr r \<Rightarrow> isl (yaml_load w r)))"

text \<open>The validator and the rule document of a load that read and parsed both files.\<close>

definition loaded_inputs :: "('j, 'y) world \<Rightarrow> string \<Rightarrow> (('y \<Rightarrow> exn + verdict) \<times> 'y) option" where
  "loaded_inputs w workspace =
     (case readFileSync w (rule_path w workspace ''rule-Schema.json'') of
        Inl e \<Rightarrow> None
      | Inr s \<Rightarrow>
     (case JSON_parse w s of
        Inl e \<Rightarrow> None
      | Inr j \<Rightarrow>
     (case ajv_compile w j of
        Inl e \<Rightarrow> None
      | Inr v \<Rightarrow>
     (case readFileSync w (rule_path w workspace ''create.yaml'') of
        Inl e \<Rightarrow> None
      | Inr r \<Rightarrow>
     (case yaml_load w r of
        Inl e \<Rightarrow> None
      | Inr doc \<Rightarrow> Some (v, doc))))))"

definition schema_violation :: "('j, 'y) world \<Rightarrow> string \<Rightarrow> bool" where
  "schema_violation w workspace =
     (case loaded_inputs w workspace of
        None \<Rightarrow> False
      | Some (v, doc) \<Rightarrow> (case v doc of Inr (Invalid errors) \<Rightarrow> True | _ \<Rightarrow> False))"

definition compile_error :: "('j, 'y) world \<Rightarrow> string \<Rightarrow> bool" where
  "compile_error w workspace =
     ((case readFileSync w (rule_path w workspace ''rule-Schema.json'') of
         Inl e \<Rightarrow> False
       | Inr s \<Rightarrow> (case JSON_parse w s of Inl e \<Rightarrow> False | Inr j \<Rightarrow> isl (ajv_compile w j)))
      \<or> (case loaded_inputs w workspace of
            None \<Rightarrow> False
          | Some (v, doc) \<Rightarrow>
              (case v doc of
                 Inl e \<Rightarrow> True
               | Inr (Invalid errors) \<Rightarrow> False
               | Inr Valid \<Rightarrow>
                   (case rules_of w doc of
                      Inl e \<Rightarrow> True
                    | Inr rules \<Rightarrow> isl (compile_rules (jexl_compile w) rules)))))"

definition load_fails :: "('j, 'y) world \<Rightarrow> string \<Rightarrow> bool" where
  "load_fails w workspace =
     (read_error w workspace \<or> parse_error w workspace \<or> schema_violation w workspace
      \<or> compile_error w workspace)"

text \<open>
  A sample load: both files are read and parsed, and the validator rejects the rule
  document for a missing required field.
\<close>

definition missing_field_world :: "(unit, unit) world" where
  "missing_field_world =
     \<lparr>path_join = join_with ''/'',
      readFileSync = (\<lambda>path. Inr ''''),
      JSON_parse = (\<lambda>s. Inr ()),
      ajv_compile = (\<lambda>j. Inr (\<lambda>doc. Inr (Invalid (Some [''must have required property when''])))),
      yaml_load = (\<lambda>s. Inr ()),
      rules_of = (\<lambda>doc. Inr []),
      jexl_compile = (\<lambda>s. Inr always_true)\<rparr>"

text \<open>The message of a schema violation, for the proofs.\<close>

definition schema_error_message :: "string list option \<Rightarrow> string" where
  "schema_error_message errors =
     ''Rule schema error: '' @ join_with ''; '' (case errors of None \<Rightarrow> [] | Some es \<Rightarrow> es)"

section \<open>Specification of the quick fix\<close>

text \<open>
  An occurrence lies within the text when the text has the lines its range names: the
  line of either end of the range is at most the number of lines of the text.
\<close>

definition within_text :: "string \<Rightarrow> Range \<Rightarrow> bool" where
  "within_text text r =
     (line (range_start r) \<le> length (split_on (CHR 0x0A) text)
      \<and> line (range_end r) \<le> length (split_on (CHR 0x0A) text))"

text \<open>
  The offset of a position in the text: the lengths of the lines before its line, each
  with its newline, and its character. The text of an occurrence is the text between the
  offsets of the two ends of its range.
\<close>

definition position_offset :: "string \<Rightarrow> Position \<Rightarrow> nat" where
  "position_offset text pos =
     sum_list (map (\<lambda>l. length l + 1) (take (line pos) (split_on (CHR 0x0A) text)))
       + character pos"

definition occurrence_text :: "string \<Rightarrow> Range \<Rightarrow> string" where
  "occurrence_text text r =
     take (position_offset text (range_end r) - position_offset text (range_start r))
       (drop (position_offset text (range_start r)) text)"

text \<open>
  The indentation of a line is the blanks and tabs it starts with. The base indent of
  the merged block is the indentation of the line on which the first occurrence starts;
  past the last line of the text there is none.
\<close>

definition indentation :: "string \<Rightarrow> string" where
  "indentation l = takeWhile (\<lambda>c. c = CHR '' '' \<or> c = CHR 0x09) l"

definition base_indent :: "string \<Rightarrow> Range \<Rightarrow> string" where
  "base_indent text first =
     (case at_index (split_on (CHR 0x0A) text) (line (range_start first)) of
        None \<Rightarrow> []
      | Some l \<Rightarrow> indentation l)"

text \<open>
  The body of an occurrence whose text holds an opening and a closing brace: the text
  strictly between its first \<open>{\<close> and its last \<open>}\<close>, without the newlines it starts with
  and the white space it ends with, split into lines; every line loses the least
  indentation width of the lines that are not blank (a body of blank lines only loses
  everything) and is prefixed with the child indent.
\<close>

definition has_braces :: "string \<Rightarrow> bool" where
  "has_braces raw = (CHR ''{'' \<in> set raw \<and> CHR ''}'' \<in> set raw)"

definition between_braces :: "string \<Rightarrow> string" where
  "between_braces raw =
     (let first = length (takeWhile (\<lambda>c. c \<noteq> CHR ''{'') raw);
          last = length raw - Suc (length (takeWhile (\<lambda>c. c \<noteq> CHR ''}'') (rev raw)))
      in take (last - Suc first) (drop (Suc first) raw))"

definition body_lines :: "string \<Rightarrow> string list" where
  "body_lines raw =
     split_on (CHR 0x0A)
       (rev (dropWhile is_space (rev (dropWhile (\<lambda>c. c = CHR 0x0A) (between_braces raw)))))"

definition blank_line :: "string \<Rightarrow> bool" where
  "blank_line l = list_all is_space l"

definition unindent :: "string list \<Rightarrow> string \<Rightarrow> string" where
  "unindent ls l =
     (if list_all blank_line ls then []
      else drop (Min (set (map (\<lambda>k. length (indentation k)) (filter (\<lambda>k. \<not> blank_line k) ls)))) l)"

definition occurrence_body :: "string \<Rightarrow> string \<Rightarrow> string" where
  "occurrence_body child raw =
     join_with [CHR 0x0A] (map (\<lambda>l. child @ unindent (body_lines raw) l) (body_lines raw))"

text \<open>
  The merged block: the bodies one blank line apart, between the line
  \<open>deviation target {\<close> and the line of the closing brace, both at the base indent.
\<close>

definition merged_block :: "string \<Rightarrow> string \<Rightarrow> string list \<Rightarrow> string" where
  "merged_block base target bodies =
     base @ ''deviation '' @ target @ '' {'' @ [CHR 0x0A]
       @ join_with [CHR 0x0A, CHR 0x0A] bodies
       @ [CHR 0x0A] @ base @ ''}''"

text \<open>
  A sample: two deviation blocks for one target, the deviation index of that document
  (its second occurrence listed first), the diagnostic of the second block, and a
  deviation index left by a longer document.
\<close>

definition merge_doc :: string where
  "merge_doc =
     ''  deviation /if:x {\<newline>    deviate add { max-elements 10; }\<newline>  }\<newline>  deviation /if:x {\<newline>    deviate add { min-elements 1; }\<newline>  }''"

definition first_block :: Range where
  "first_block = \<lparr>range_start = \<lparr>line = 0, character = 0\<rparr>,
                  range_end = \<lparr>line = 2, character = 3\<rparr>\<rparr>"

definition second_block :: Range where
  "second_block = \<lparr>range_start = \<lparr>line = 3, character = 0\<rparr>,
                   range_end = \<lparr>line = 5, character = 3\<rparr>\<rparr>"

definition merge_index :: "Range list jsmap" where
  "merge_index = [(''/if:x'', [second_block, first_block])]"

definition dup_diag :: Diagnostic where
  "dup_diag = \<lparr>d_range = second_block, d_message = ''duplicate deviation target'',
     d_severity = Warning, d_source = ''yang-lint:deviation-unique-target'',
     d_data = Some ''/if:x''\<rparr>"

definition stale_index :: "Range list jsmap" where
  "stale_index =
     [(''/if:x'',
       [\<lparr>range_start = \<lparr>line = 40, character = 0\<rparr>, range_end = \<lparr>line = 42, character = 1\<rparr>\<rparr>,
        \<lparr>range_start = \<lparr>line = 50, character = 0\<rparr>, range_end = \<lparr>line = 52, character = 1\<rparr>\<rparr>])]"

text \<open>
  One occurrence does not start after another; a list sorted by this relation is in
  document order.
\<close>

definition not_after :: "Range \<Rightarrow> Range \<Rightarrow> bool" where
  "not_after a b = (\<not> pos_less (range_start b) (range_start a))"

section \<open>The brace matcher computes the matching brace\<close>

lemma close_at_balanced:
  "balanced w \<Longrightarrow> 1 \<le> d \<Longrightarrow> close_at d (w @ rest) = close_at d rest"
proof (induction w arbitrary: d rest rule: balanced.induct)
  case empty
  show ?case by simp
next
  case (nest w i j)
  have "close_at d (((i, Open) # w @ [(j, Close)]) @ rest)
      = close_at (d + 1) (w @ ((j, Close) # rest))" by simp
  also have "\<dots> = close_at (d + 1) ((j, Close) # rest)"
    using nest.IH [of "d + 1" "(j, Close) # rest"] nest.prems by simp
  also have "\<dots> = close_at d rest" using nest.prems by simp
  finally show ?case .
next
  case (seq v w)
  have "close_at d ((v @ w) @ rest) = close_at d (v @ (w @ rest))" by simp
  also have "\<dots> = close_at d (w @ rest)" using seq.IH(1) seq.prems by blast
  also have "\<dots> = close_at d rest" using seq.IH(2) seq.prems by blast
  finally show ?case .
qed

lemma balanced_insert:
  "balanced w \<Longrightarrow> w = u @ v \<Longrightarrow> balanced (u @ (a, Open) # (b, Close) # v)"
proof (induction w arbitrary: u v rule: balanced.induct)
  case empty
  then have "u = []" "v = []" by simp_all
  moreover have "balanced ((a, Open) # [] @ [(b, Close)])"
    by (rule balanced.nest) (rule balanced.empty)
  ultimately show ?case by simp
next
  case (nest w i j)
  have pair: "balanced [(a, Open), (b, Close)]"
    using balanced.nest [OF balanced.empty, of a b] by simp
  have whole: "balanced ((i, Open) # w @ [(j, Close)])"
    by (rule balanced.nest) (rule nest.hyps)
  show ?case
  proof (cases u)
    case Nil
    with nest.prems have "v = (i, Open) # w @ [(j, Close)]" by simp
    with Nil show ?thesis using balanced.seq [OF pair whole] by simp
  next
    case (Cons x u')
    note u = Cons
    show ?thesis
    proof (cases v rule: rev_cases)
      case Nil
      with nest.prems have "u = (i, Open) # w @ [(j, Close)]" by simp
      with Nil show ?thesis using balanced.seq [OF whole pair] by simp
    next
      case (snoc v' y)
      with u nest.prems have "x = (i, Open)" "y = (j, Close)" "w = u' @ v'" by simp_all
      with nest.IH [of u' v'] have "balanced (u' @ (a, Open) # (b, Close) # v')" by simp
      then have "balanced ((i, Open) # (u' @ (a, Open) # (b, Close) # v') @ [(j, Close)])"
        by (rule balanced.nest)
      with u snoc \<open>x = (i, Open)\<close> \<open>y = (j, Close)\<close> show ?thesis by simp
    qed
  qed
next
  case (seq w1 w2)
  from seq.prems have "w1 @ w2 = u @ v" by simp
  then consider t where "u = w1 @ t" "w2 = t @ v" | t where "w1 = u @ t" "v = t @ w2"
    by (auto simp: append_eq_append_conv2)
  then show ?case
  proof cases
    case 1
    from seq.IH(2) [of t v] 1 have "balanced (t @ (a, Open) # (b, Close) # v)" by simp
    with seq.hyps(1) have "balanced (w1 @ (t @ (a, Open) # (b, Close) # v))"
      by (rule balanced.seq)
    with 1 show ?thesis by simp
  next
    case 2
    from seq.IH(1) [of u t] 2 have "balanced (u @ (a, Open) # (b, Close) # t)" by simp
    then have "balanced ((u @ (a, Open) # (b, Close) # t) @ w2)"
      using seq.hyps(2) by (rule balanced.seq)
    with 2 show ?thesis by simp
  qed
qed

lemma close_at_split:
  "close_at (1 + int (length os)) ts = Some j \<Longrightarrow> \<forall>t \<in> set os. snd t = Open \<Longrightarrow>
   \<exists>pre post. ts = pre @ (j, Close) # post \<and> balanced (os @ pre)"
proof (induction ts arbitrary: os)
  case Nil
  then show ?case by simp
next
  case (Cons t ts)
  obtain i b where t: "t = (i, b)" by (cases t)
  show ?case
  proof (cases b)
    case Open
    with t Cons.prems have "close_at (1 + int (length (os @ [(i, Open)]))) ts = Some j"
      by (simp add: add.commute)
    moreover have "\<forall>t \<in> set (os @ [(i, Open)]). snd t = Open" using Cons.prems(2) by simp
    ultimately obtain pre post where
      "ts = pre @ (j, Close) # post" "balanced ((os @ [(i, Open)]) @ pre)"
      using Cons.IH [of "os @ [(i, Open)]"] by blast
    then have "t # ts = ((i, Open) # pre) @ (j, Close) # post \<and> balanced (os @ ((i, Open) # pre))"
      using t Open by simp
    then show ?thesis by blast
  next
    case Close
    show ?thesis
    proof (cases os rule: rev_cases)
      case Nil
      with t Close Cons.prems have "j = i" by simp
      with t Close Nil have "t # ts = [] @ (j, Close) # ts \<and> balanced (os @ [])"
        by (simp add: balanced.empty)
      then show ?thesis by blast
    next
      case (snoc os' x)
      with Cons.prems(2) obtain k where x: "x = (k, Open)" by (cases x) auto
      from snoc t Close Cons.prems have "close_at (1 + int (length os')) ts = Some j"
        by (simp split: if_splits)
      moreover have "\<forall>t \<in> set os'. snd t = Open" using Cons.prems(2) snoc by simp
      ultimately obtain pre post where p:
        "ts = pre @ (j, Close) # post" "balanced (os' @ pre)"
        using Cons.IH [of os'] by blast
      have "balanced (os' @ (k, Open) # (i, Close) # pre)"
        using balanced_insert [OF p(2) refl] .
      with p(1) snoc x t Close
      have "t # ts = ((i, Close) # pre) @ (j, Close) # post \<and> balanced (os @ ((i, Close) # pre))"
        by simp
      then show ?thesis by blast
    qed
  qed
qed

lemma close_at_iff:
  "close_at 1 ts = Some j \<longleftrightarrow> (\<exists>pre post. ts = pre @ (j, Close) # post \<and> balanced pre)"
proof
  assume "close_at 1 ts = Some j"
  then show "\<exists>pre post. ts = pre @ (j, Close) # post \<and> balanced pre"
    using close_at_split [of "[]" ts j] by simp
next
  assume "\<exists>pre post. ts = pre @ (j, Close) # post \<and> balanced pre"
  then obtain pre post where "ts = pre @ (j, Close) # post" "balanced pre" by blast
  then show "close_at 1 ts = Some j"
    using close_at_balanced [of pre 1 "(j, Close) # post"] by simp
qed


lemma before_index_Suc: "i < length xs \<Longrightarrow> before_index xs (Suc i) = Some (xs ! i)"
  by (simp add: before_index_def at_index_def)

lemma drop_two:
  "Suc i < length xs \<Longrightarrow> drop i xs = xs ! i # xs ! Suc i # drop (Suc (Suc i)) xs"
  by (simp add: Cons_nth_drop_Suc)

lemma drop_last_one: "i < length xs \<Longrightarrow> \<not> Suc i < length xs \<Longrightarrow> drop i xs = [xs ! i]"
  using Cons_nth_drop_Suc [of i xs] by simp

lemma fmb_loop_counted_braces:
  "i \<le> length tx \<Longrightarrow>
   fmb_loop tx st d i =
     scan_result tx (close_at d (counted_braces st (before_index tx i) i (drop i tx)))"
proof (induction tx st d i rule: fmb_loop.induct)
  case (1 tx state depth i)
  show ?case
  proof (cases "i < length tx")
    case False
    with "1.prems" have "drop i tx = []" by simp
    with False show ?thesis by (simp add: fmb_loop.simps [of tx _ _ i] scan_result_def)
  next
    case True
    note lt = True
    have prev1: "before_index tx (Suc i) = Some (tx ! i)"
      using lt by (rule before_index_Suc)
    show ?thesis
    proof (cases "Suc i < length tx")
      case True
      have d2: "drop i tx = tx ! i # tx ! Suc i # drop (Suc (Suc i)) tx"
        using True by (rule drop_two)
      have d1: "drop (Suc i) tx = tx ! Suc i # drop (Suc (Suc i)) tx"
        using True by (simp add: Cons_nth_drop_Suc)
      have nxt: "at_index tx (Suc i) = Some (tx ! Suc i)"
        using True by (simp add: at_index_def)
      have prev2: "before_index tx (Suc (Suc i)) = Some (tx ! Suc i)"
        using True by (rule before_index_Suc)
      show ?thesis
        using "1.IH" lt True
        by (cases state)
           (auto simp add: scan_result_def fmb_loop.simps [of tx _ _ i] Let_def d2 nxt prev1 prev2 d1)
    next
      case False
      have d0: "drop i tx = [tx ! i]" using lt False by (rule drop_last_one)
      have e: "drop (Suc i) tx = []" using False by simp
      have nxt: "at_index tx (Suc i) = None"
        using False by (simp add: at_index_def)
      show ?thesis
        using "1.IH" lt False
        by (cases state)
           (auto simp add: scan_result_def fmb_loop.simps [of tx _ _ i] Let_def d0 nxt prev1 e)
    qed
  qed
qed


subsection \<open>The loop and the specification read a text without backslashes alike\<close>

lemma counted_braces_spec:
  "CHR 0x5C \<notin> set cs \<Longrightarrow>
   (st = DQ_STRING \<or> st = SQ_STRING \<longrightarrow> prev \<noteq> Some (CHR 0x5C)) \<Longrightarrow>
   counted_braces st prev i cs = spec_braces st i cs"
proof (induction st prev i cs rule: counted_braces.induct)
  case (1 st prev i)
  show ?case by simp
next
  case (2 prev i c cs)
  then show ?case by (cases cs) auto
next
  case (3 prev i c cs)
  then show ?case by auto
next
  case (4 prev i c cs)
  then show ?case by (cases cs) auto
next
  case (5 prev i c cs)
  then show ?case by auto
next
  case (6 prev i c cs)
  then show ?case by auto
qed

lemma findMatchingBrace_scan:
  "findMatchingBrace tx (int openIdx) =
     scan_result tx (close_at 1
       (counted_braces CODE (at_index tx openIdx) (openIdx + 1) (drop (openIdx + 1) tx)))"
proof (cases "openIdx + 1 \<le> length tx")
  case True
  have "before_index tx (openIdx + 1) = at_index tx openIdx"
    by (simp add: before_index_def)
  with fmb_loop_counted_braces [OF True, of CODE 1] show ?thesis
    by (simp add: findMatchingBrace_def nat_add_distrib)
next
  case False
  then have "drop (openIdx + 1) tx = []" by simp
  with False show ?thesis
    by (simp add: findMatchingBrace_def nat_add_distrib fmb_loop.simps [of tx _ _ "Suc openIdx"]
          scan_result_def)
qed

lemma matching_close_iff:
  "matching_close tx openIdx j \<longleftrightarrow>
     close_at 1 (spec_braces CODE (openIdx + 1) (drop (openIdx + 1) tx)) = Some j"
  by (simp add: matching_close_def close_at_iff)

text \<open>
  On a text without a backslash \<open>findMatchingBrace\<close> returns the matching closing brace
  of the specification, and the last index when there is none.
\<close>

lemma findMatchingBrace_without_backslash:
  assumes "CHR 0x5C \<notin> set tx"
  shows "(matching_close tx openIdx j \<longrightarrow> findMatchingBrace tx (int openIdx) = int j)
       \<and> ((\<forall>j. \<not> matching_close tx openIdx j) \<longrightarrow>
            findMatchingBrace tx (int openIdx) = int (length tx) - 1)"
proof -
  from assms have "CHR 0x5C \<notin> set (drop (openIdx + 1) tx)"
    by (meson in_set_dropD)
  then have e: "counted_braces CODE (at_index tx openIdx) (openIdx + 1) (drop (openIdx + 1) tx)
      = spec_braces CODE (openIdx + 1) (drop (openIdx + 1) tx)"
    by (rule counted_braces_spec) simp
  show ?thesis using e
    by (simp add: matching_close_iff findMatchingBrace_scan scan_result_def)
qed

section \<open>Document order of the extracted nodes\<close>

lemma pos_less_trans: "pos_less p q \<Longrightarrow> pos_less q r \<Longrightarrow> pos_less p r"
  by (auto simp: pos_less_def)

lemma pos_less_irrefl: "\<not> pos_less p p"
  by (simp add: pos_less_def)

lemma pos_less_asym: "pos_less p q \<Longrightarrow> \<not> pos_less q p"
  by (auto simp: pos_less_def)

lemma split_on_not_Nil: "split_on c s \<noteq> []"
  by (induction s) (auto split: list.splits)

lemma split_on_snoc:
  "split_on c (p @ [x]) =
     (if x = c then split_on c p @ [[]]
      else butlast (split_on c p) @ [last (split_on c p) @ [x]])"
proof (induction p)
  case Nil
  show ?case by simp
next
  case (Cons y p)
  obtain l ls where s: "split_on c p = l # ls"
    using split_on_not_Nil [of c p] by (cases "split_on c p") auto
  show ?case
  proof (cases "x = c")
    case True
    with Cons s show ?thesis by simp
  next
    case False
    with Cons s show ?thesis by (cases ls) auto
  qed
qed

lemma js_slice_take: "js_slice s 0 (int k) = take k s"
  by (simp add: js_slice_def Let_def min_def)

lemma idxToPos_Suc:
  assumes "k < length tx"
  shows "idxToPos tx (int (Suc k)) =
     (if tx ! k = CHR 0x0A then \<lparr>line = Suc (line (idxToPos tx (int k))), character = 0\<rparr>
      else \<lparr>line = line (idxToPos tx (int k)),
            character = Suc (character (idxToPos tx (int k)))\<rparr>)"
proof -
  have t: "take (Suc k) tx = take k tx @ [tx ! k]"
    using assms by (simp add: take_Suc_conv_app_nth)
  have ne: "split_on (CHR 0x0A) (take k tx) \<noteq> []" by (rule split_on_not_Nil)
  then have len: "length (split_on (CHR 0x0A) (take k tx)) \<noteq> 0" by simp
  show ?thesis
    unfolding idxToPos_def js_slice_take t split_on_snoc Let_def
    using ne len by (auto simp: Suc_diff_Suc)
qed

lemma idxToPos_step: "k < length tx \<Longrightarrow> pos_less (idxToPos tx (int k)) (idxToPos tx (int (Suc k)))"
  by (simp add: idxToPos_Suc pos_less_def del: of_nat_Suc)

lemma idxToPos_mono:
  "a < b \<Longrightarrow> b \<le> length tx \<Longrightarrow> pos_less (idxToPos tx (int a)) (idxToPos tx (int b))"
proof (induction b)
  case 0
  then show ?case by simp
next
  case (Suc b)
  have step: "pos_less (idxToPos tx (int b)) (idxToPos tx (int (Suc b)))"
    by (rule idxToPos_step) (use Suc.prems in simp)
  show ?case
  proof (cases "a = b")
    case True
    with step show ?thesis by simp
  next
    case False
    with Suc have "pos_less (idxToPos tx (int a)) (idxToPos tx (int b))" by simp
    then show ?thesis using step by (rule pos_less_trans)
  qed
qed

text \<open>
  Every expression that the parser runs in a loop takes at least one character, so the
  loops of the source end and \<open>exec_all\<close> lists their matches.
\<close>

lemma parser_expressions_consume:
  "0 < re_min_len IMPORT_RE" "0 < re_min_len STATUS_RE" "0 < re_min_len TYPEDEF_START_RE"
  "0 < re_min_len LIST_START_RE" "0 < re_min_len DEVIATION_START_RE" "0 < re_min_len LEAF_RE"
  "0 < re_min_len DESC_BLOCK_RE" "0 < re_min_len CONSTRAINT_START_RE"
  by (simp_all add: re_min_len_def IMPORT_RE_def STATUS_RE_def TYPEDEF_START_RE_def
        LIST_START_RE_def DEVIATION_START_RE_def LEAF_RE_def DESC_BLOCK_RE_def
        CONSTRAINT_START_RE_def)

lemma exec_all_bounds:
  "m \<in> set (exec_all re tx li) \<Longrightarrow> li \<le> m_index m \<and> m_index m < m_end m \<and> m_end m \<le> length tx"
proof (induction re tx li rule: exec_all.induct)
  case (1 re tx li)
  show ?case
  proof (cases "re_min_len re = 0")
    case True
    with "1.prems" show ?thesis by (simp add: exec_all.simps [of re tx li])
  next
    case False
    note pos = False
    show ?thesis
    proof (cases "search re tx li")
      case None
      with "1.prems" pos show ?thesis by (simp add: exec_all.simps [of re tx li])
    next
      case (Some m')
      from search_bounds [OF Some] pos
      have b: "li \<le> m_index m'" "m_index m' < m_end m'" "m_end m' \<le> length tx" by auto
      from "1.prems" pos Some have "m = m' \<or> m \<in> set (exec_all re tx (m_end m'))"
        by (simp add: exec_all.simps [of re tx li])
      then show ?thesis
      proof
        assume "m = m'"
        with b show ?thesis by simp
      next
        assume "m \<in> set (exec_all re tx (m_end m'))"
        from "1.IH" [OF pos Some this] b show ?thesis by simp
      qed
    qed
  qed
qed

lemma exec_all_increasing:
  "sorted_wrt (<) (map m_index (exec_all re tx li))"
proof (induction re tx li rule: exec_all.induct)
  case (1 re tx li)
  show ?case
  proof (cases "re_min_len re = 0")
    case True
    then show ?thesis by (simp add: exec_all.simps [of re tx li])
  next
    case False
    note pos = False
    show ?thesis
    proof (cases "search re tx li")
      case None
      with pos show ?thesis by (simp add: exec_all.simps [of re tx li])
    next
      case (Some m')
      from search_bounds [OF Some] pos have b: "m_index m' < m_end m'" by auto
      have "\<forall>m \<in> set (exec_all re tx (m_end m')). m_index m' < m_index m"
        using exec_all_bounds [of _ re tx "m_end m'"] b by fastforce
      with "1.IH" [OF pos Some] pos Some show ?thesis
        by (simp add: exec_all.simps [of re tx li])
    qed
  qed
qed


section \<open>The grouping pass\<close>


lemma first_occurrences_set [simp]: "set (first_occurrences xs) = set xs"
  by (induction xs) auto

lemma first_occurrences_distinct [simp]: "distinct (first_occurrences xs)"
  by (induction xs) (auto simp: distinct_removeAll)

lemma first_occurrences_snoc:
  "first_occurrences (xs @ [x]) =
     (if x \<in> set xs then first_occurrences xs else first_occurrences xs @ [x])"
  by (induction xs) auto

lemma map_of_keyed:
  "map_of (map (\<lambda>k. (k, f k)) ks) k = (if k \<in> set ks then Some (f k) else None)"
  by (induction ks) auto

lemma map_set_absent:
  "k \<notin> set ks \<Longrightarrow> map_set (map (\<lambda>k. (k, f k)) ks) k v = map (\<lambda>k. (k, f k)) ks @ [(k, v)]"
  by (induction ks) auto

lemma map_set_present:
  "k \<in> set ks \<Longrightarrow> distinct ks \<Longrightarrow>
   map_set (map (\<lambda>k. (k, f k)) ks) k v = map (\<lambda>k'. (k', if k' = k then v else f k')) ks"
proof (induction ks)
  case Nil
  then show ?case by simp
next
  case (Cons a ks)
  show ?case
  proof (cases "a = k")
    case True
    with Cons.prems have "k \<notin> set ks" by simp
    then have "map (\<lambda>k. (k, f k)) ks = map (\<lambda>k'. (k', if k' = k then v else f k')) ks"
      by (intro map_cong) auto
    with True show ?thesis by simp
  next
    case False
    with Cons show ?thesis by simp
  qed
qed

lemma groups_snoc:
  "map_set (groups ns) (dev_target n)
     ((case map_get (groups ns) (dev_target n) of Some a \<Rightarrow> a | None \<Rightarrow> []) @ [n])
   = groups (ns @ [n])"
proof (cases "dev_target n \<in> set (map dev_target ns)")
  case True
  then have in_f: "dev_target n \<in> set (first_occurrences (map dev_target ns))" by simp
  have g: "map_get (groups ns) (dev_target n) = Some (filter (\<lambda>x. dev_target x = dev_target n) ns)"
    unfolding map_get_def groups_def map_of_keyed using in_f by simp
  have "map_set (groups ns) (dev_target n) (filter (\<lambda>x. dev_target x = dev_target n) ns @ [n])
      = map (\<lambda>k'. (k', if k' = dev_target n
                        then filter (\<lambda>x. dev_target x = dev_target n) ns @ [n]
                        else filter (\<lambda>x. dev_target x = k') ns))
          (first_occurrences (map dev_target ns))"
    unfolding groups_def by (rule map_set_present [OF in_f]) simp
  also have "\<dots> = groups (ns @ [n])"
    using True by (auto simp: groups_def first_occurrences_snoc)
  finally show ?thesis using g by simp
next
  case False
  then have out: "dev_target n \<notin> set (first_occurrences (map dev_target ns))" by simp
  have g: "map_get (groups ns) (dev_target n) = None"
    unfolding map_get_def groups_def map_of_keyed using out by simp
  have "map_set (groups ns) (dev_target n) [n] = groups ns @ [(dev_target n, [n])]"
    unfolding groups_def by (rule map_set_absent [OF out])
  also have "\<dots> = groups (ns @ [n])"
  proof -
    have e: "filter (\<lambda>x. dev_target x = dev_target n) ns = []"
    proof -
      have "\<forall>x \<in> set ns. dev_target x \<noteq> dev_target n"
      proof
        fix x assume "x \<in> set ns"
        then have "dev_target x \<in> set (map dev_target ns)" by simp
        with False show "dev_target x \<noteq> dev_target n" by metis
      qed
      then show ?thesis by (simp add: filter_empty_conv)
    qed
    have "map (\<lambda>t. (t, filter (\<lambda>x. dev_target x = t) ns)) (first_occurrences (map dev_target ns))
        = map (\<lambda>t. (t, filter (\<lambda>x. dev_target x = t) (ns @ [n])))
            (first_occurrences (map dev_target ns))"
      using False by (intro map_cong) auto
    with e False show ?thesis
      by (simp add: groups_def first_occurrences_snoc)
  qed
  finally show ?thesis using g by simp
qed

lemma collect_deviations_groups:
  "collect_deviations tx ms (groups seen) = groups (seen @ map (deviation_node tx) ms)"
proof (induction ms arbitrary: seen)
  case Nil
  show ?case by simp
next
  case (Cons dm ms)
  show ?case
    using Cons.IH [of "seen @ [deviation_node tx dm]"]
    by (simp add: Let_def groups_snoc)
qed


lemma flag_from_targets [simp]: "map dev_target (flag_from seen ns) = map dev_target ns"
  by (induction ns arbitrary: seen) auto

lemma flag_from_starts [simp]: "map dev_start (flag_from seen ns) = map dev_start ns"
  by (induction ns arbitrary: seen) (auto simp: dev_start_def)

lemma flag_from_filter:
  "filter (\<lambda>n. dev_target n = t) (flag_from seen ns) =
     (if t \<in> set seen
      then map (\<lambda>n. n\<lparr>dev_duplicate := True\<rparr>) (filter (\<lambda>n. dev_target n = t) ns)
      else (case filter (\<lambda>n. dev_target n = t) ns of
              [] \<Rightarrow> []
            | x # r \<Rightarrow> x\<lparr>dev_duplicate := False\<rparr> # map (\<lambda>n. n\<lparr>dev_duplicate := True\<rparr>) r))"
proof (induction ns arbitrary: seen)
  case Nil
  show ?case by simp
next
  case (Cons a ns)
  show ?case
  proof (cases "dev_target a = t")
    case True
    then show ?thesis using Cons.IH [of "dev_target a # seen"] by simp
  next
    case False
    then show ?thesis using Cons.IH [of "dev_target a # seen"] by simp
  qed
qed

lemma mark_duplicates_alt:
  assumes "\<forall>n \<in> set g. \<not> dev_duplicate n"
  shows "mark_duplicates g =
     (case g of [] \<Rightarrow> [] | x # r \<Rightarrow> x\<lparr>dev_duplicate := False\<rparr> # map (\<lambda>n. n\<lparr>dev_duplicate := True\<rparr>) r)"
proof (cases g)
  case Nil
  then show ?thesis by (simp add: mark_duplicates_def)
next
  case (Cons x r)
  with assms have "x\<lparr>dev_duplicate := False\<rparr> = x" by simp
  with Cons show ?thesis by (cases r) (simp_all add: mark_duplicates_def)
qed

lemma doc_nodes_unflagged: "n \<in> set (doc_nodes tx) \<Longrightarrow> \<not> dev_duplicate n"
  by (auto simp: doc_nodes_def deviation_node_def)

lemma parse_deviations_grouped:
  "parse_deviations tx = group_by_target (flag_from [] (doc_nodes tx))"
proof -
  let ?ns = "doc_nodes tx"
  have c: "collect_deviations tx (exec_all DEVIATION_START_RE tx 0) [] = groups ?ns"
    using collect_deviations_groups [of tx "exec_all DEVIATION_START_RE tx 0" "[]"]
    by (simp add: groups_def doc_nodes_def)
  have m: "mark_duplicates (filter (\<lambda>n. dev_target n = t) ?ns)
         = filter (\<lambda>n. dev_target n = t) (flag_from [] ?ns)" for t
  proof -
    have "\<forall>n \<in> set (filter (\<lambda>n. dev_target n = t) ?ns). \<not> dev_duplicate n"
      using doc_nodes_unflagged [of _ tx] by auto
    then show ?thesis by (simp add: mark_duplicates_alt flag_from_filter)
  qed
  show ?thesis
    unfolding parse_deviations_def c
    by (simp add: groups_def map_values_def group_by_target_def comp_def m)
qed

lemma set_group_by_target [simp]: "set (group_by_target ds) = set ds"
  by (auto simp: group_by_target_def)

lemma flag_from_duplicate:
  assumes "sorted_wrt pos_less (map dev_start ns)" and "n \<in> set (flag_from seen ns)"
  shows "dev_duplicate n \<longleftrightarrow>
     (dev_target n \<in> set seen \<or>
      (\<exists>m \<in> set (flag_from seen ns). dev_target m = dev_target n \<and> pos_less (dev_start m) (dev_start n)))"
  using assms
proof (induction ns arbitrary: seen)
  case Nil
  then show ?case by simp
next
  case (Cons x r)
  let ?x' = "x\<lparr>dev_duplicate := (dev_target x \<in> set seen)\<rparr>"
  let ?rest = "flag_from (dev_target x # seen) r"
  have sx: "dev_start ?x' = dev_start x" and tx: "dev_target ?x' = dev_target x"
    by (simp_all add: dev_start_def)
  have later: "pos_less (dev_start x) (dev_start m)" if "m \<in> set ?rest" for m
  proof -
    from that have "dev_start m \<in> dev_start ` set ?rest" by (rule imageI)
    then have "dev_start m \<in> set (map dev_start ?rest)" by (simp only: set_map)
    then have "dev_start m \<in> set (map dev_start r)" by simp
    with Cons.prems(1) show ?thesis by auto
  qed
  from Cons.prems(1) have sr: "sorted_wrt pos_less (map dev_start r)" by simp
  from Cons.prems(2) consider "n = ?x'" | "n \<in> set ?rest" by auto
  then show ?case
  proof cases
    case 1
    have no: "\<not> (\<exists>m \<in> set (flag_from seen (x # r)).
                  dev_target m = dev_target n \<and> pos_less (dev_start m) (dev_start n))"
    proof
      assume "\<exists>m \<in> set (flag_from seen (x # r)).
                 dev_target m = dev_target n \<and> pos_less (dev_start m) (dev_start n)"
      then obtain m where m: "m \<in> set (?x' # ?rest)" "pos_less (dev_start m) (dev_start n)"
        by auto
      from m(1) have "m = ?x' \<or> m \<in> set ?rest" by simp
      then show False
      proof
        assume "m = ?x'"
        with m(2) 1 show False by (simp add: pos_less_irrefl)
      next
        assume "m \<in> set ?rest"
        from later [OF this] m(2) 1 sx show False using pos_less_asym by metis
      qed
    qed
    from 1 have d: "dev_duplicate n = (dev_target x \<in> set seen)"
      and t: "dev_target n = dev_target x" by simp_all
    from no have e: "(\<exists>m \<in> set (flag_from seen (x # r)).
        dev_target m = dev_target n \<and> pos_less (dev_start m) (dev_start n)) = False"
      by (rule iffD2 [OF eq_False])
    show ?thesis unfolding e d unfolding t by (simp only: simp_thms)
  next
    case 2
    from Cons.IH [OF sr 2]
    have ih: "dev_duplicate n \<longleftrightarrow>
       (dev_target n \<in> set (dev_target x # seen) \<or>
        (\<exists>m \<in> set ?rest. dev_target m = dev_target n \<and> pos_less (dev_start m) (dev_start n)))" .
    have xn: "pos_less (dev_start ?x') (dev_start n)" using later [OF 2] sx by simp
    show ?thesis
    proof
      assume "dev_duplicate n"
      with ih consider "dev_target n = dev_target x" | "dev_target n \<in> set seen"
        | "\<exists>m \<in> set ?rest. dev_target m = dev_target n \<and> pos_less (dev_start m) (dev_start n)"
        by auto
      then show "dev_target n \<in> set seen \<or>
        (\<exists>m \<in> set (flag_from seen (x # r)). dev_target m = dev_target n \<and> pos_less (dev_start m) (dev_start n))"
      proof cases
        case 1
        with xn tx have "?x' \<in> set (flag_from seen (x # r)) \<and> dev_target ?x' = dev_target n
            \<and> pos_less (dev_start ?x') (dev_start n)" by simp
        then show ?thesis by blast
      next
        case 2
        then show ?thesis by simp
      next
        case 3
        then show ?thesis by auto
      qed
    next
      assume "dev_target n \<in> set seen \<or>
        (\<exists>m \<in> set (flag_from seen (x # r)). dev_target m = dev_target n \<and> pos_less (dev_start m) (dev_start n))"
      then consider "dev_target n \<in> set seen"
        | m where "m \<in> set (flag_from seen (x # r))" "dev_target m = dev_target n"
            "pos_less (dev_start m) (dev_start n)" by blast
      then show "dev_duplicate n"
      proof cases
        case 1
        with ih show ?thesis by simp
      next
        case (2 m)
        from 2(1) have "m = ?x' \<or> m \<in> set ?rest" by simp
        then show ?thesis
        proof
          assume "m = ?x'"
          with 2(2) tx have "dev_target n = dev_target x" by simp
          with ih show ?thesis by simp
        next
          assume "m \<in> set ?rest"
          with 2 ih show ?thesis by blast
        qed
      qed
    qed
  qed
qed


section \<open>The collections are in document order before grouping\<close>

lemma nodes_of_non_empty [simp]: "nodes_of (non_empty xs) = xs"
  by (simp add: nodes_of_def non_empty_def)

lemma doc_nodes_document_order: "document_order (map dev_start (doc_nodes tx))"
proof -
  let ?ms = "exec_all DEVIATION_START_RE tx 0"
  have "sorted_wrt (\<lambda>a b. pos_less (dev_start (deviation_node tx a)) (dev_start (deviation_node tx b))) ?ms"
  proof (rule sorted_wrt_mono_rel [of ?ms "\<lambda>a b. m_index a < m_index b"])
    fix a b assume "a \<in> set ?ms" "b \<in> set ?ms" "m_index a < m_index b"
    moreover from \<open>b \<in> set ?ms\<close> have "m_index b \<le> length tx"
      using exec_all_bounds [of b DEVIATION_START_RE tx 0] by simp
    ultimately show "pos_less (dev_start (deviation_node tx a)) (dev_start (deviation_node tx b))"
      by (simp add: dev_start_def deviation_node_def range_of_def idxToPos_mono)
  next
    show "sorted_wrt (\<lambda>a b. m_index a < m_index b) ?ms"
      using exec_all_increasing [of DEVIATION_START_RE tx 0] by (simp add: sorted_wrt_map)
  qed
  then show ?thesis by (simp add: document_order_def doc_nodes_def sorted_wrt_map)
qed

lemma parse_imports_document_order:
  "document_order (map (\<lambda>n. range_start (imp_range n)) (parse_imports tx))"
proof -
  let ?ms = "exec_all IMPORT_RE tx 0"
  have "sorted_wrt (\<lambda>a b. pos_less (idxToPos tx (int (m_index a))) (idxToPos tx (int (m_index b)))) ?ms"
  proof (rule sorted_wrt_mono_rel [of ?ms "\<lambda>a b. m_index a < m_index b"])
    fix a b assume "a \<in> set ?ms" "b \<in> set ?ms" "m_index a < m_index b"
    moreover from \<open>b \<in> set ?ms\<close> have "m_index b \<le> length tx"
      using exec_all_bounds [of b IMPORT_RE tx 0] by simp
    ultimately show "pos_less (idxToPos tx (int (m_index a))) (idxToPos tx (int (m_index b)))"
      by (simp add: idxToPos_mono)
  next
    show "sorted_wrt (\<lambda>a b. m_index a < m_index b) ?ms"
      using exec_all_increasing [of IMPORT_RE tx 0] by (simp add: sorted_wrt_map)
  qed
  then show ?thesis
    by (simp add: document_order_def parse_imports_def sorted_wrt_map comp_def range_of_def)
qed

section \<open>The validation pass runs over the pairs in their order\<close>

lemma run_pairs_append:
  "run_pairs (ps @ qs) out =
     (case run_pairs ps out of Inl e \<Rightarrow> Inl e | Inr out' \<Rightarrow> run_pairs qs out')"
  by (induction ps out rule: run_pairs.induct) simp_all

lemma forEach_eval_run:
  assumes "\<And>n out. push_n n out = out @ [dn n]"
  shows "forEach_eval expr ctx_of push_n ns out
       = run_pairs (map (\<lambda>n. (expr (ctx_of n), dn n)) ns) out"
proof (induction ns arbitrary: out)
  case Nil
  show ?case by simp
next
  case (Cons n ns)
  show ?case
  proof (cases "expr (ctx_of n)")
    case (Inl e)
    then show ?thesis by simp
  next
    case (Inr b)
    then show ?thesis using Cons.IH by (simp add: assms)
  qed
qed

lemma eval_rule_run: "eval_rule ast c out = run_pairs (rule_pairs ast c) out"
proof -
  have p: "\<And>r f x n out. push r (f n) x out = out @ [diagnostic r (f n) x]"
    by (simp add: push_def)
  note fe = forEach_eval_run [where push_n = "\<lambda>n. push r (f n) (g n)" and dn = "\<lambda>n. diagnostic r (f n) (g n)" for r f g,
      OF push_def]
  show ?thesis
    unfolding eval_rule_def rule_pairs_def candidates_def Let_def
    by (auto simp: fe comp_def push_def split: option.splits sum.splits)
qed

lemma validate_rules_run: "validate_rules ast cs out = run_pairs (all_pairs ast cs) out"
proof (induction cs arbitrary: out)
  case Nil
  show ?case by (simp add: all_pairs_def)
next
  case (Cons c cs)
  have "all_pairs ast (c # cs) = rule_pairs ast c @ all_pairs ast cs"
    by (simp add: all_pairs_def)
  then show ?case using Cons.IH
    by (simp add: run_pairs_append eval_rule_run split: sum.splits)
qed

lemma run_pairs_no_throw:
  "\<forall>p \<in> set ps. \<not> isl (fst p) \<Longrightarrow> run_pairs ps out = Inr (out @ truthy_diagnostics ps)"
  by (induction ps out rule: run_pairs.induct) (simp_all add: truthy_diagnostics_def)

lemma run_pairs_throw:
  "\<exists>p \<in> set ps. isl (fst p) \<Longrightarrow> \<exists>e d. (Inl e, d) \<in> set ps \<and> run_pairs ps out = Inl e"
  by (induction ps out rule: run_pairs.induct) auto

lemma run_pairs_Inr:
  "run_pairs ps out = Inr out' \<Longrightarrow> out' = out @ truthy_diagnostics ps"
  by (induction ps out rule: run_pairs.induct) (simp_all add: truthy_diagnostics_def)


lemma validate_run:
  "snd (validate eng uri ast) = run_pairs (all_pairs ast (compiled eng)) []"
  by (simp add: validate_def validate_rules_run)

lemma sample_pairs_true:
  "all_pairs two_imports [R1, R2] =
     [(Inr True, at_import ''R1'' import_A), (Inr True, at_import ''R1'' import_B),
      (Inr True, at_import ''R2'' import_A), (Inr True, at_import ''R2'' import_B)]"
  by (simp add: Let_def all_pairs_def rule_pairs_def candidates_def two_imports_def R1_def R2_def
        import_rule_def nodes_of_def always_true_def at_import_def)

lemma sample_pairs_throwing:
  "all_pairs two_imports [R1_throwing, R2] =
     [(Inl (Exn ''TypeError''), at_import ''R1'' import_A), (Inr True, at_import ''R1'' import_B),
      (Inr True, at_import ''R2'' import_A), (Inr True, at_import ''R2'' import_B)]"
  by (simp add: Let_def all_pairs_def rule_pairs_def candidates_def two_imports_def R1_throwing_def R2_def
        import_rule_def nodes_of_def always_true_def throws_on_A_def at_import_def import_A_def
        import_B_def)


section \<open>A failed load leaves no rules\<close>

lemma reload_try_failure:
  assumes "load_fails w ws" and "reload_try w ws eng = Inr eng'"
  shows "\<exists>errors. eng' = eng\<lparr>messages := messages eng @ [ErrorMessage (schema_error_message errors)],
                               compiled := []\<rparr>"
proof -
  from assms obtain errors where
    "eng' = eng\<lparr>messages := messages eng @ [ErrorMessage (schema_error_message errors)],
                compiled := []\<rparr>"
    unfolding reload_try_def load_fails_def read_error_def parse_error_def
      schema_violation_def compile_error_def loaded_inputs_def schema_error_message_def
    by (auto split: sum.splits verdict.splits)
  then show ?thesis ..
qed

lemma reload_failure:
  assumes "load_fails w ws"
  shows "\<exists>msg. reload w ws eng = eng\<lparr>messages := messages eng @ [ErrorMessage msg], compiled := []\<rparr>"
proof (cases "reload_try w ws eng")
  case (Inl e)
  obtain x where "e = Exn x" by (cases e)
  with Inl have "reload w ws eng
      = eng\<lparr>messages := messages eng @ [ErrorMessage (''Rule reload error: '' @ x)], compiled := []\<rparr>"
    by (simp add: reload_def)
  then show ?thesis ..
next
  case (Inr eng')
  from reload_try_failure [OF assms Inr] obtain errors where
    "eng' = eng\<lparr>messages := messages eng @ [ErrorMessage (schema_error_message errors)],
                compiled := []\<rparr>" ..
  with Inr have "reload w ws eng
      = eng\<lparr>messages := messages eng @ [ErrorMessage (schema_error_message errors)], compiled := []\<rparr>"
    by (simp add: reload_def)
  then show ?thesis ..
qed

lemma reload_success:
  assumes "\<not> load_fails w ws"
  shows "\<exists>rules cs. compile_rules (jexl_compile w) rules = Inr cs \<and>
     reload w ws eng = eng\<lparr>compiled := cs, messages := messages eng @
        [InformationMessage (''Loaded '' @ show_nat (length rules) @ '' rules from create.yaml'')]\<rparr>"
proof -
  from assms have r: "\<not> read_error w ws" and p: "\<not> parse_error w ws"
    and v: "\<not> schema_violation w ws" and c: "\<not> compile_error w ws"
    by (simp_all add: load_fails_def)
  from r obtain s t where s: "readFileSync w (rule_path w ws ''rule-Schema.json'') = Inr s"
    and t: "readFileSync w (rule_path w ws ''create.yaml'') = Inr t"
    unfolding read_error_def
    by (cases "readFileSync w (rule_path w ws ''rule-Schema.json'')";
        cases "readFileSync w (rule_path w ws ''create.yaml'')") auto
  from p s t obtain j doc where j: "JSON_parse w s = Inr j" and doc: "yaml_load w t = Inr doc"
    unfolding parse_error_def by (cases "JSON_parse w s"; cases "yaml_load w t") auto
  from c s j obtain val where val: "ajv_compile w j = Inr val"
    unfolding compile_error_def by (cases "ajv_compile w j") auto
  have li: "loaded_inputs w ws = Some (val, doc)"
    by (simp add: loaded_inputs_def s t j doc val)
  from v c li have ok: "val doc = Inr Valid"
    unfolding schema_violation_def compile_error_def
    by (cases "val doc") (auto split: verdict.splits)
  from c li ok s j val obtain rules where rules: "rules_of w doc = Inr rules"
    unfolding compile_error_def by (cases "rules_of w doc") auto
  from c li ok s j val rules obtain cs where cs: "compile_rules (jexl_compile w) rules = Inr cs"
    unfolding compile_error_def by (cases "compile_rules (jexl_compile w) rules") auto
  have "reload w ws eng = eng\<lparr>compiled := cs, messages := messages eng @
        [InformationMessage (''Loaded '' @ show_nat (length rules) @ '' rules from create.yaml'')]\<rparr>"
    by (simp add: reload_def reload_try_def s t j doc val ok rules cs)
  with cs show ?thesis by blast
qed

lemma validate_no_rules: "compiled eng = [] \<Longrightarrow> snd (validate eng uri ast) = Inr []"
  by (simp add: validate_def)


section \<open>The deviation index of a pass\<close>

lemma map_get_map_set:
  "map_get (map_set m k v) t = (if t = k then Some v else map_get m t)"
  by (induction m) (auto simp: map_get_def)

lemma fill_deviationMap_get:
  "map_get (fill_deviationMap ds dm) t =
     (case map_get dm t of
        None \<Rightarrow> occurrences ds t
      | Some a \<Rightarrow> Some (a @ map dev_range (filter (\<lambda>n. dev_target n = t) ds)))"
proof (induction ds arbitrary: dm)
  case Nil
  show ?case by (simp add: occurrences_def split: option.splits)
next
  case (Cons d ds)
  show ?case
  proof (cases "dev_target d = t")
    case True
    then show ?thesis
      by (simp add: Cons.IH Let_def map_get_map_set occurrences_def split: option.splits)
  next
    case False
    then show ?thesis
      by (simp add: Cons.IH Let_def map_get_map_set occurrences_def split: option.splits)
  qed
qed

lemma map_get_Nil: "map_get [] t = None"
  by (simp add: map_get_def)

lemma validate_index:
  "map_get (deviationMap (fst (validate eng uri ast))) t
     = occurrences (nodes_of (ast_deviations ast)) t"
  by (simp add: validate_def fill_deviationMap_get map_get_Nil)

section \<open>The quick fix throws exactly beyond the text\<close>

lemma offsetAt_loop_within:
  "ln \<le> length lines \<Longrightarrow> \<exists>n. offsetAt_loop lines ln i off = Inr n"
proof (induction lines ln i off rule: offsetAt_loop.induct)
  case (1 lines ln i off)
  show ?case
  proof (cases "i < ln")
    case False
    then show ?thesis by (simp add: offsetAt_loop.simps [of lines ln i off])
  next
    case True
    with "1.prems" have a: "at_index lines i = Some (lines ! i)" by (simp add: at_index_def)
    from "1.IH" [OF True a "1.prems"] True a show ?thesis
      by (simp add: offsetAt_loop.simps [of lines ln i off])
  qed
qed

lemma offsetAt_loop_beyond:
  "length lines < ln \<Longrightarrow> i \<le> length lines \<Longrightarrow> offsetAt_loop lines ln i off = Inl type_error"
proof (induction lines ln i off rule: offsetAt_loop.induct)
  case (1 lines ln i off)
  from "1.prems" have lt: "i < ln" by simp
  show ?case
  proof (cases "i < length lines")
    case False
    with lt show ?thesis
      by (simp add: offsetAt_loop.simps [of lines ln i off] at_index_def)
  next
    case True
    then have a: "at_index lines i = Some (lines ! i)" by (simp add: at_index_def)
    from True have "i + 1 \<le> length lines" by simp
    from "1.IH" [OF lt a "1.prems"(1) this] lt a show ?thesis
      by (simp add: offsetAt_loop.simps [of lines ln i off])
  qed
qed

lemma offsetAt_within:
  "line pos \<le> length (split_on (CHR 0x0A) tx) \<Longrightarrow> \<exists>n. offsetAt tx pos = Inr n"
  using offsetAt_loop_within [of "line pos" "split_on (CHR 0x0A) tx" 0 0]
  by (auto simp: offsetAt_def)

lemma offsetAt_beyond:
  "length (split_on (CHR 0x0A) tx) < line pos \<Longrightarrow> offsetAt tx pos = Inl type_error"
  using offsetAt_loop_beyond [of "split_on (CHR 0x0A) tx" "line pos" 0 0]
  by (simp add: offsetAt_def)

lemma textSlice_within: "within_text tx r \<Longrightarrow> \<exists>raw. textSlice tx r = Inr raw"
  using offsetAt_within [of "range_start r" tx] offsetAt_within [of "range_end r" tx]
  by (auto simp: within_text_def textSlice_def)

lemma textSlice_beyond: "\<not> within_text tx r \<Longrightarrow> textSlice tx r = Inl type_error"
proof (cases "line (range_start r) \<le> length (split_on (CHR 0x0A) tx)")
  case False
  then show ?thesis using offsetAt_beyond [of tx "range_start r"]
    by (simp add: textSlice_def)
next
  case True
  assume "\<not> within_text tx r"
  with True have "length (split_on (CHR 0x0A) tx) < line (range_end r)"
    by (simp add: within_text_def)
  then have e: "offsetAt tx (range_end r) = Inl type_error" by (rule offsetAt_beyond)
  from offsetAt_within [OF True] obtain n where "offsetAt tx (range_start r) = Inr n" ..
  with e show ?thesis by (simp add: textSlice_def)
qed

lemma map_bodies_within:
  "\<forall>r \<in> set rs. within_text tx r \<Longrightarrow> \<exists>bodies. map_bodies tx ind rs = Inr bodies"
proof (induction rs)
  case Nil
  show ?case by simp
next
  case (Cons r rs)
  then obtain raw bodies where "textSlice tx r = Inr raw" "map_bodies tx ind rs = Inr bodies"
    using textSlice_within [of tx r] by auto
  then show ?case by simp
qed

lemma map_bodies_beyond:
  "\<exists>r \<in> set rs. \<not> within_text tx r \<Longrightarrow> \<exists>e. map_bodies tx ind rs = Inl e"
proof (induction rs)
  case Nil
  then show ?case by simp
next
  case (Cons r rs)
  show ?case
  proof (cases "within_text tx r")
    case False
    then show ?thesis by (simp add: textSlice_beyond)
  next
    case True
    with Cons.prems have "\<exists>r \<in> set rs. \<not> within_text tx r" by simp
    from Cons.IH [OF this] obtain e where "map_bodies tx ind rs = Inl e" ..
    then show ?thesis by (simp split: sum.splits)
  qed
qed

subsection \<open>The sort puts the first occurrence first\<close>

lemma count_insert_sorted:
  "count_list (insert_sorted x ys) r = count_list (x # ys) r"
  by (induction ys) auto

lemma count_sort_ranges: "count_list (sort_ranges rs) r = count_list rs r"
  by (induction rs) (simp_all add: sort_ranges_def count_insert_sorted)

lemma set_insert_sorted [simp]: "set (insert_sorted x ys) = insert x (set ys)"
  by (induction ys) auto

lemma set_sort_ranges [simp]: "set (sort_ranges rs) = set rs"
  by (induction rs) (simp_all add: sort_ranges_def)

lemma length_insert_sorted [simp]: "length (insert_sorted x ys) = Suc (length ys)"
  by (induction ys) auto

lemma length_sort_ranges [simp]: "length (sort_ranges rs) = length rs"
  by (induction rs) (simp_all add: sort_ranges_def)

lemma compare_start_pos_less: "compare_start a b \<le> 0 \<longleftrightarrow> \<not> pos_less (range_start b) (range_start a)"
  by (auto simp: compare_start_def pos_less_def Let_def)

lemma not_after_trans: "not_after a b \<Longrightarrow> not_after b c \<Longrightarrow> not_after a c"
  by (auto simp: not_after_def pos_less_def)

lemma not_after_total: "\<not> not_after a b \<Longrightarrow> not_after b a"
  by (auto simp: not_after_def pos_less_def)

lemma sorted_insert_sorted:
  "sorted_wrt not_after ys \<Longrightarrow> sorted_wrt not_after (insert_sorted x ys)"
proof (induction ys)
  case Nil
  show ?case by simp
next
  case (Cons y ys)
  show ?case
  proof (cases "compare_start x y \<le> 0")
    case True
    then have xy: "not_after x y" by (simp add: compare_start_pos_less not_after_def)
    have "\<forall>z \<in> set ys. not_after x z"
      using Cons.prems xy not_after_trans by auto
    with True xy Cons.prems show ?thesis by simp
  next
    case False
    then have "not_after y x"
      using not_after_total [of x y] by (simp add: compare_start_pos_less not_after_def)
    with False Cons show ?thesis by auto
  qed
qed

lemma sorted_sort_ranges: "sorted_wrt not_after (sort_ranges rs)"
  by (induction rs) (simp_all add: sort_ranges_def sorted_insert_sorted)

lemma hd_sort_ranges_first:
  assumes "r \<in> set rs"
  shows "\<not> pos_less (range_start r) (range_start (hd (sort_ranges rs)))"
proof -
  from assms have ne: "sort_ranges rs \<noteq> []" by (metis empty_iff empty_set set_sort_ranges)
  then obtain f os where s: "sort_ranges rs = f # os" by (cases "sort_ranges rs") auto
  from assms have "r \<in> set (f # os)" using s set_sort_ranges [of rs] by simp
  then have "r = f \<or> r \<in> set os" by simp
  moreover have "\<forall>z \<in> set os. not_after f z"
    using sorted_sort_ranges [of rs] s by simp
  ultimately have "not_after f r"
    by (auto simp: not_after_def pos_less_def)
  with s show ?thesis by (simp add: not_after_def)
qed


subsection \<open>The three outcomes of the quick fix\<close>

lemma buildDeviationFix_none:
  assumes "d_data diag = Some target"
    and "map_get dmap target = None \<or> (\<exists>rs. map_get dmap target = Some rs \<and> length rs < 2)"
  shows "buildDeviationFix dmap diag uri tx = Inr None"
  using assms by (auto simp: buildDeviationFix_def)

lemma buildDeviationFix_beyond:
  assumes d: "d_data diag = Some target"
    and m: "map_get dmap target = Some rs" and l: "2 \<le> length rs"
    and w: "\<exists>r \<in> set rs. \<not> within_text tx r"
  shows "\<exists>e. buildDeviationFix dmap diag uri tx = Inl e"
proof (cases "offsetAt tx \<lparr>line = line (range_start (hd (sort_ranges rs))), character = 0\<rparr>")
  case (Inl e)
  with d m l show ?thesis by (simp add: buildDeviationFix_def Let_def)
next
  case (Inr off)
  define lineEndOff where "lineEndOff =
    (if indexOf tx (CHR 0x0A) off = - 1 then int (length tx) else indexOf tx (CHR 0x0A) off)"
  define base where "base = leading_blanks (js_slice tx (int off) lineEndOff)"
  from w have "\<exists>r \<in> set (sort_ranges rs). \<not> within_text tx r" by simp
  from map_bodies_beyond [OF this, of "base @ ''  ''"] obtain e where
    "map_bodies tx (base @ ''  '') (sort_ranges rs) = Inl e" ..
  with d m l Inr have "buildDeviationFix dmap diag uri tx = Inl e"
    by (simp add: buildDeviationFix_def Let_def base_def lineEndOff_def)
  then show ?thesis ..
qed

subsection \<open>What the quick fix computes within the text\<close>

lemma js_slice_nat: "js_slice s (int a) (int b) = take (b - a) (drop a s)"
proof (cases "a \<le> length s")
  case False
  then show ?thesis by (simp add: js_slice_def Let_def)
next
  case a: True
  show ?thesis
  proof (cases "b \<le> length s")
    case True
    with a show ?thesis by (simp add: js_slice_def Let_def nat_diff_distrib')
  next
    case False
    with a have "js_slice s (int a) (int b) = drop a s"
      by (simp add: js_slice_def Let_def)
    moreover from False a have "take (b - a) (drop a s) = drop a s" by simp
    ultimately show ?thesis by simp
  qed
qed

lemma offsetAt_loop_sum:
  "ln \<le> length lines \<Longrightarrow>
   offsetAt_loop lines ln i off =
     Inr (off + sum_list (map (\<lambda>l. length l + 1) (take (ln - i) (drop i lines))))"
proof (induction lines ln i off rule: offsetAt_loop.induct)
  case (1 lines ln i off)
  show ?case
  proof (cases "i < ln")
    case False
    then show ?thesis by (simp add: offsetAt_loop.simps [of lines ln i off])
  next
    case True
    with "1.prems" have il: "i < length lines" by simp
    then have a: "at_index lines i = Some (lines ! i)" by (simp add: at_index_def)
    from il have d: "drop i lines = lines ! i # drop (Suc i) lines"
      by (simp add: Cons_nth_drop_Suc)
    from True have s: "ln - i = Suc (ln - (i + 1))" by simp
    have t: "take (ln - i) (drop i lines) = lines ! i # take (ln - (i + 1)) (drop (i + 1) lines)"
      unfolding s d by simp
    from "1.IH" [OF True a "1.prems"] True a show ?thesis
      by (simp add: offsetAt_loop.simps [of lines ln i off] t)
  qed
qed

lemma offsetAt_position_offset:
  "line pos \<le> length (split_on (CHR 0x0A) tx) \<Longrightarrow> offsetAt tx pos = Inr (position_offset tx pos)"
  using offsetAt_loop_sum [of "line pos" "split_on (CHR 0x0A) tx" 0 0]
  by (simp add: offsetAt_def position_offset_def)

lemma textSlice_occurrence_text:
  "within_text tx r \<Longrightarrow> textSlice tx r = Inr (occurrence_text tx r)"
  by (simp add: within_text_def textSlice_def offsetAt_position_offset js_slice_nat
      occurrence_text_def)

lemma map_bodies_occurrences:
  "\<forall>r \<in> set rs. within_text tx r \<Longrightarrow>
   map_bodies tx ind rs = Inr (map (\<lambda>r. reindent_body ind (occurrence_text tx r)) rs)"
  by (induction rs) (simp_all add: textSlice_occurrence_text)


subsection \<open>Searching a character\<close>

lemma index_in_conv:
  "index_in c s i = (if c \<in> set s then int (i + length (takeWhile (\<lambda>x. x \<noteq> c) s)) else - 1)"
  by (induction s arbitrary: i) auto

lemma takeWhile_rev_snoc:
  "takeWhile (\<lambda>y. y \<noteq> c) (rev xs @ [x]) =
     (if c \<in> set xs then takeWhile (\<lambda>y. y \<noteq> c) (rev xs)
      else if x = c then rev xs else rev xs @ [x])"
proof (cases "c \<in> set xs")
  case True
  then have "takeWhile (\<lambda>y. y \<noteq> c) (rev xs @ [x]) = takeWhile (\<lambda>y. y \<noteq> c) (rev xs)"
    by (intro takeWhile_append1 [of c]) simp_all
  with True show ?thesis by simp
next
  case False
  then have "takeWhile (\<lambda>y. y \<noteq> c) (rev xs @ [x]) = rev xs @ takeWhile (\<lambda>y. y \<noteq> c) [x]"
    by (intro takeWhile_append2) auto
  with False show ?thesis by simp
qed

lemma last_index_in_conv:
  "last_index_in c s i found =
     (if c \<in> set s then int (i + length s - Suc (length (takeWhile (\<lambda>y. y \<noteq> c) (rev s))))
      else found)"
proof (induction s arbitrary: i found)
  case Nil
  show ?case by simp
next
  case (Cons x xs)
  show ?case by (simp add: Cons.IH takeWhile_rev_snoc)
qed

lemma between_braces_slice:
  assumes "has_braces raw"
  shows "js_slice raw (indexOf raw (CHR ''{'') 0 + 1) (lastIndexOf raw (CHR ''}''))
           = between_braces raw"
proof -
  from assms have o: "indexOf raw (CHR ''{'') 0 + 1
      = int (Suc (length (takeWhile (\<lambda>c. c \<noteq> CHR ''{'') raw)))"
    by (simp add: indexOf_def index_in_conv has_braces_def)
  from assms have c: "lastIndexOf raw (CHR ''}'')
      = int (length raw - Suc (length (takeWhile (\<lambda>c. c \<noteq> CHR ''}'') (rev raw))))"
    by (simp add: lastIndexOf_def last_index_in_conv has_braces_def)
  show ?thesis unfolding o c js_slice_nat by (simp add: between_braces_def Let_def)
qed

subsection \<open>Indentation\<close>

lemma leading_blanks_indentation: "leading_blanks l = indentation l"
  unfolding leading_blanks_def indentation_def
  by (rule takeWhile_cong) (simp_all add: blank_def)

lemma trim_empty: "trim l = [] \<longleftrightarrow> list_all is_space l"
proof
  assume "list_all is_space l"
  then have d: "dropWhile is_space l = []" by (simp add: list_all_iff)
  show "trim l = []" unfolding trim_def d by simp
next
  assume t: "trim l = []"
  show "list_all is_space l"
  proof (rule ccontr)
    assume "\<not> list_all is_space l"
    then have ne: "dropWhile is_space l \<noteq> []" by (simp add: list_all_iff)
    then have "\<not> is_space (hd (dropWhile is_space l))" by (rule hd_dropWhile)
    moreover from ne have "hd (dropWhile is_space l) \<in> set (rev (dropWhile is_space l))"
      by simp
    ultimately have "dropWhile is_space (rev (dropWhile is_space l)) \<noteq> []"
      by (metis dropWhile_eq_Nil_conv)
    with t show False by (simp add: trim_def)
  qed
qed

lemma foldl_min_Min: "foldl min (w :: nat) ws = Min (set (w # ws))"
proof (induction ws arbitrary: w)
  case Nil
  show ?case by simp
next
  case (Cons x ws)
  have "foldl min w (x # ws) = Min (set (min w x # ws))" by (simp add: Cons.IH)
  also have "\<dots> = Min (set (w # x # ws))"
    by (cases "ws = []") (simp_all add: min.assoc)
  finally show ?case .
qed

lemma min_indent_conv:
  "min_indent ls =
     (if list_all blank_line ls then None
      else Some (Min (set (map (\<lambda>k. length (indentation k)) (filter (\<lambda>k. \<not> blank_line k) ls)))))"
proof -
  have f: "filter (\<lambda>l. trim l \<noteq> []) ls = filter (\<lambda>k. \<not> blank_line k) ls"
    by (simp add: trim_empty blank_line_def)
  show ?thesis
  proof (cases "filter (\<lambda>k. \<not> blank_line k) ls")
    case Nil
    then have "list_all blank_line ls" by (simp add: filter_empty_conv list_all_iff)
    with Nil show ?thesis by (simp add: min_indent_def f)
  next
    case (Cons k ks)
    then have "\<not> list_all blank_line ls"
      by (metis filter_empty_conv list.distinct(1) list_all_iff)
    with Cons show ?thesis
      by (simp add: min_indent_def f leading_blanks_indentation foldl_min_Min del: foldl_Cons)
  qed
qed

lemma slice_indent_unindent: "slice_indent (min_indent ls) l = unindent ls l"
  by (simp add: slice_indent_def unindent_def min_indent_conv)

lemma reindent_body_occurrence_body:
  "has_braces raw \<Longrightarrow> reindent_body child raw = occurrence_body child raw"
  by (simp add: reindent_body_def occurrence_body_def Let_def between_braces_slice
      strip_body_def body_lines_def slice_indent_unindent)


subsection \<open>The line an occurrence starts on\<close>

lemma split_on_notin: "c \<notin> set a \<Longrightarrow> split_on c a = [a]"
  by (induction a) auto

lemma split_on_append: "c \<notin> set a \<Longrightarrow> split_on c (a @ c # rest) = a # split_on c rest"
  by (induction a) auto

lemma line_start:
  "ln \<le> length (split_on c tx) \<Longrightarrow>
   takeWhile (\<lambda>x. x \<noteq> c)
     (drop (sum_list (map (\<lambda>l. length l + 1) (take ln (split_on c tx)))) tx)
     = (case at_index (split_on c tx) ln of None \<Rightarrow> [] | Some l \<Rightarrow> l)"
proof (induction ln arbitrary: tx)
  case 0
  show ?case
  proof (cases "c \<in> set tx")
    case False
    then show ?thesis by (auto simp: split_on_notin at_index_def takeWhile_eq_all_conv)
  next
    case True
    then obtain a rest where t: "tx = a @ c # rest" and a: "c \<notin> set a"
      by (auto dest: split_list_first)
    from a have "takeWhile (\<lambda>x. x \<noteq> c) (a @ c # rest) = a @ takeWhile (\<lambda>x. x \<noteq> c) (c # rest)"
      by (intro takeWhile_append2) auto
    with a show ?thesis by (simp add: t split_on_append at_index_def)
  qed
next
  case (Suc k)
  show ?case
  proof (cases "c \<in> set tx")
    case False
    with Suc.prems show ?thesis by (simp add: split_on_notin at_index_def)
  next
    case True
    then obtain a rest where t: "tx = a @ c # rest" and a: "c \<notin> set a"
      by (auto dest: split_list_first)
    from Suc.prems a have k: "k \<le> length (split_on c rest)" by (simp add: t split_on_append)
    from Suc.IH [OF k] a show ?thesis by (simp add: t split_on_append at_index_def)
  qed
qed

lemma first_line_slice:
  "js_slice tx (int off)
     (if indexOf tx c off = - 1 then int (length tx) else indexOf tx c off)
     = takeWhile (\<lambda>x. x \<noteq> c) (drop off tx)"
proof (cases "c \<in> set (drop off tx)")
  case True
  then have i: "indexOf tx c off = int (off + length (takeWhile (\<lambda>x. x \<noteq> c) (drop off tx)))"
    by (simp add: indexOf_def index_in_conv)
  have n: "indexOf tx c off \<noteq> - 1" unfolding i by simp
  have "js_slice tx (int off) (indexOf tx c off)
      = take (length (takeWhile (\<lambda>x. x \<noteq> c) (drop off tx))) (drop off tx)"
    unfolding i js_slice_nat by simp
  also have "\<dots> = takeWhile (\<lambda>x. x \<noteq> c) (drop off tx)"
    by (rule takeWhile_eq_take [symmetric])
  finally show ?thesis using n by simp
next
  case False
  then have i: "indexOf tx c off = - 1" by (simp add: indexOf_def index_in_conv)
  from False have t: "takeWhile (\<lambda>x. x \<noteq> c) (drop off tx) = drop off tx"
    by (auto simp: takeWhile_eq_all_conv)
  have "js_slice tx (int off) (int (length tx)) = drop off tx"
    unfolding js_slice_nat by simp
  then show ?thesis unfolding i t by simp
qed

lemma base_indent_first_line:
  assumes "line (range_start first) \<le> length (split_on (CHR 0x0A) tx)"
    and "off = position_offset tx \<lparr>line = line (range_start first), character = 0\<rparr>"
  shows "leading_blanks (js_slice tx (int off)
           (if indexOf tx (CHR 0x0A) off = - 1 then int (length tx)
            else indexOf tx (CHR 0x0A) off))
         = base_indent tx first"
proof -
  from assms(2) have o: "off = sum_list (map (\<lambda>l. length l + 1)
      (take (line (range_start first)) (split_on (CHR 0x0A) tx)))"
    by (simp add: position_offset_def)
  show ?thesis
    unfolding first_line_slice leading_blanks_indentation base_indent_def o line_start [OF assms(1)]
    by (simp add: indentation_def split: option.splits)
qed

subsection \<open>The code action within the text\<close>

lemma buildDeviationFix_merged:
  assumes d: "d_data diag = Some target"
    and m: "map_get dmap target = Some rs" and l: "2 \<le> length rs"
    and w: "\<forall>r \<in> set rs. within_text tx r"
  shows "buildDeviationFix dmap diag uri tx =
       Inr (Some \<lparr>ca_title = ''Merge duplicate deviations'', ca_kind = QuickFix,
                  ca_diagnostics = [diag],
                  ca_changes =
                    [(uri,
                      \<lparr>te_range = hd (sort_ranges rs),
                        te_newText =
                          merged_block (base_indent tx (hd (sort_ranges rs))) target
                            (map (\<lambda>r. reindent_body (base_indent tx (hd (sort_ranges rs)) @ ''  '')
                                        (occurrence_text tx r))
                               (sort_ranges rs))\<rparr>
                      # map (\<lambda>r. \<lparr>te_range = r, te_newText = []\<rparr>) (tl (sort_ranges rs)))]\<rparr>)"
proof -
  let ?sorted = "sort_ranges rs"
  from l have "?sorted \<noteq> []" by (metis length_sort_ranges list.size(3) not_numeral_le_zero)
  then have "hd ?sorted \<in> set rs" using set_sort_ranges [of rs] hd_in_set by blast
  with w have "within_text tx (hd ?sorted)" by blast
  then have hl: "line (range_start (hd ?sorted)) \<le> length (split_on (CHR 0x0A) tx)"
    by (simp add: within_text_def)
  define off where "off = position_offset tx \<lparr>line = line (range_start (hd ?sorted)), character = 0\<rparr>"
  from hl have o: "offsetAt tx \<lparr>line = line (range_start (hd ?sorted)), character = 0\<rparr> = Inr off"
    by (simp add: offsetAt_position_offset off_def)
  have b: "leading_blanks (js_slice tx (int off)
           (if indexOf tx (CHR 0x0A) off = - 1 then int (length tx)
            else indexOf tx (CHR 0x0A) off))
         = base_indent tx (hd ?sorted)"
    using hl off_def by (rule base_indent_first_line)
  from w have "\<forall>r \<in> set ?sorted. within_text tx r" by simp
  note mb = map_bodies_occurrences [OF this]
  show ?thesis
    using d m l
    by (simp add: buildDeviationFix_def Let_def o b mb merged_block_def)
qed
section \<open>Claims about the brace matcher\<close>

text \<open>
  C5 fails on the code. In the first sample text the string ends after its escaped
  backslash and the brace opened at index 0 has its matching closing brace at index 7;
  \<open>findMatchingBrace\<close> looks one character back, takes the closing quote for an escaped
  one, reads the rest of the text as a string and returns 9, the last index. The
  example of the claim holds: for \<open>{ a "}" b }\<close> it returns 10.
\<close>

theorem findMatchingBrace_escaped_backslash:
  "matching_close closed_after_backslash 0 7
   \<and> findMatchingBrace closed_after_backslash 0 = 9
   \<and> findMatchingBrace ''{ a \"}\" b }'' 0 = 10"
proof -
  have "close_at 1 (spec_braces CODE (0 + 1) (drop (0 + 1) closed_after_backslash)) = Some 7"
    by code_simp
  then have a: "matching_close closed_after_backslash 0 7" by (simp only: matching_close_iff)
  have b: "findMatchingBrace closed_after_backslash 0 = 9" by code_simp
  have c: "findMatchingBrace ''{ a \"}\" b }'' 0 = 10" by code_simp
  from a b c show ?thesis by (intro conjI)
qed

text \<open>
  C6 fails on the code, by the same look-behind. In the second sample text the brace
  opened at index 0 is never closed and the last index is 10; \<open>findMatchingBrace\<close> takes
  the closing quote after the escaped backslash for an escaped one, reads the opening
  quote of the next string as the end of the first, counts the brace at index 8, which
  stands in a string, and returns 8.
\<close>

theorem findMatchingBrace_brace_in_string:
  "(\<forall>j. \<not> matching_close open_after_backslash 0 j)
   \<and> findMatchingBrace open_after_backslash 0 = 8
   \<and> int (length open_after_backslash) - 1 = 10"
proof -
  have "close_at 1 (spec_braces CODE (0 + 1) (drop (0 + 1) open_after_backslash)) = None"
    by code_simp
  then have a: "\<forall>j. \<not> matching_close open_after_backslash 0 j"
    by (simp only: matching_close_iff) simp
  have b: "findMatchingBrace open_after_backslash 0 = 8" by code_simp
  have c: "int (length open_after_backslash) - 1 = 10" by code_simp
  from a b c show ?thesis by (intro conjI)
qed

section \<open>Claims about the extractor\<close>

text \<open>
  C3. In the deviations of the Ast that \<open>parseYang\<close> produces, a node carries the
  duplicate flag exactly when another deviation node with the same target starts before
  it in the document, that is, when it is not the first of its target in document order.
  Three deviation blocks with one target carry the flags false, true, true.
\<close>

theorem duplicate_iff_not_first:
  "(\<forall>n \<in> set (nodes_of (ast_deviations (parseYang text))).
      dev_duplicate n \<longleftrightarrow>
        (\<exists>m \<in> set (nodes_of (ast_deviations (parseYang text))).
           dev_target m = dev_target n \<and> pos_less (dev_start m) (dev_start n)))
   \<and> map dev_duplicate (nodes_of (ast_deviations (parseYang three_same))) = [False, True, True]"
proof -
  let ?ds = "flag_from [] (doc_nodes text)"
  have d: "nodes_of (ast_deviations (parseYang text)) = group_by_target ?ds"
    by (simp add: parseYang_def parse_deviations_grouped)
  have s: "sorted_wrt pos_less (map dev_start (doc_nodes text))"
    using doc_nodes_document_order [of "text"] by (simp add: document_order_def)
  have g: "\<forall>n \<in> set (nodes_of (ast_deviations (parseYang text))).
      dev_duplicate n \<longleftrightarrow>
        (\<exists>m \<in> set (nodes_of (ast_deviations (parseYang text))).
           dev_target m = dev_target n \<and> pos_less (dev_start m) (dev_start n))"
    unfolding d set_group_by_target
  proof
    fix n assume "n \<in> set ?ds"
    from flag_from_duplicate [OF s this]
    show "dev_duplicate n \<longleftrightarrow>
        (\<exists>m \<in> set ?ds. dev_target m = dev_target n \<and> pos_less (dev_start m) (dev_start n))"
      by simp
  qed
  have e: "map dev_duplicate (nodes_of (ast_deviations (parseYang three_same)))
         = [False, True, True]"
    by code_simp
  from g e show ?thesis by (rule conjI)
qed

theorem duplicate_iff_not_first_witness:
  "(let ds = nodes_of (ast_deviations (parseYang three_same)) in
      length ds = 3 \<and> dev_duplicate (ds ! 2)
      \<and> (\<exists>m \<in> set ds. dev_target m = dev_target (ds ! 2)
             \<and> pos_less (dev_start m) (dev_start (ds ! 2))))"
proof -
  let ?ds = "nodes_of (ast_deviations (parseYang three_same))"
  have len: "length ?ds = 3" by code_simp
  then have mem: "?ds ! 2 \<in> set ?ds" by simp
  have dup: "dev_duplicate (?ds ! 2)" by code_simp
  from duplicate_iff_not_first [of three_same] mem dup
  have "\<exists>m \<in> set ?ds. dev_target m = dev_target (?ds ! 2)
           \<and> pos_less (dev_start m) (dev_start (?ds ! 2))"
    by blast
  with len dup show ?thesis by (simp add: Let_def)
qed

text \<open>
  C4, as the code has it. The namespace pattern is anchored at the start of a line, so in
  the module of one line, \<open>module foo { namespace "urn:x"; }\<close>, the header has the module
  name \<open>foo\<close> and no namespace; with the namespace statement on a line of its own the
  header has the module name \<open>foo\<close> and the namespace \<open>urn:x\<close>.
\<close>

theorem module_header_namespace_needs_own_line:
  "(\<exists>h. ast_moduleHeader (parseYang module_one_line) = Some h
        \<and> mh_moduleName h = Some ''foo'' \<and> mh_namespace h = None)
   \<and> (\<exists>h. ast_moduleHeader (parseYang module_two_lines) = Some h
        \<and> mh_moduleName h = Some ''foo'' \<and> mh_namespace h = Some ''urn:x'')"
proof -
  have a: "map_option (\<lambda>h. (mh_moduleName h, mh_namespace h))
             (ast_moduleHeader (parseYang module_one_line)) = Some (Some ''foo'', None)"
    by code_simp
  have b: "map_option (\<lambda>h. (mh_moduleName h, mh_namespace h))
             (ast_moduleHeader (parseYang module_two_lines))
           = Some (Some ''foo'', Some ''urn:x'')"
    by code_simp
  from a b show ?thesis by auto
qed

text \<open>
  The claim C4 as the specification states it fails: the header of the module of one line
  has no namespace.
\<close>

theorem module_header_one_line_counterexample:
  "\<not> (\<exists>h. ast_moduleHeader (parseYang ''module foo { namespace \"urn:x\"; }'') = Some h
          \<and> mh_moduleName h = Some ''foo'' \<and> mh_namespace h = Some ''urn:x'')"
proof -
  have "map_option mh_namespace
          (ast_moduleHeader (parseYang ''module foo { namespace \"urn:x\"; }'')) = Some None"
    by code_simp
  then show ?thesis by auto
qed

text \<open>
  C10. The deviations of the Ast are the deviation nodes of the document, taken in
  document order and then grouped by target path: the nodes of one target are adjacent
  and keep their document order, and the groups stand in the order in which their targets
  first occur. The imports are in document order. In the sample with interleaved targets
  the deviations are not in document order.
\<close>

theorem deviations_grouped_by_target:
  "(\<exists>ds. document_order (map dev_start ds)
        \<and> nodes_of (ast_deviations (parseYang text)) = group_by_target ds)
   \<and> document_order (map (\<lambda>n. range_start (imp_range n)) (nodes_of (ast_imports (parseYang text))))
   \<and> \<not> document_order (map dev_start (nodes_of (ast_deviations (parseYang interleaved))))
   \<and> map (\<lambda>n. (dev_target n, line (dev_start n)))
         (nodes_of (ast_deviations (parseYang interleaved)))
       = [(''/a'', 1), (''/a'', 4), (''/b'', 3)]"
proof -
  let ?ds = "flag_from [] (doc_nodes text)"
  have "document_order (map dev_start ?ds)"
    using doc_nodes_document_order [of "text"] by simp
  moreover have "nodes_of (ast_deviations (parseYang text)) = group_by_target ?ds"
    by (simp add: parseYang_def parse_deviations_grouped)
  ultimately have a: "\<exists>ds. document_order (map dev_start ds)
        \<and> nodes_of (ast_deviations (parseYang text)) = group_by_target ds"
    by blast
  have b: "document_order (map (\<lambda>n. range_start (imp_range n))
             (nodes_of (ast_imports (parseYang text))))"
    using parse_imports_document_order [of "text"] by (simp add: parseYang_def)
  have v: "map (\<lambda>n. (dev_target n, line (dev_start n)))
             (nodes_of (ast_deviations (parseYang interleaved)))
           = [(''/a'', 1), (''/a'', 4), (''/b'', 3)]"
    by code_simp
  have c: "\<not> document_order (map dev_start (nodes_of (ast_deviations (parseYang interleaved))))"
  proof
    assume "document_order (map dev_start (nodes_of (ast_deviations (parseYang interleaved))))"
    then have "sorted_wrt (\<lambda>p q. fst p < fst q \<or> fst p = fst q \<and> snd p < snd q)
        (map (\<lambda>n. (line (dev_start n), character (dev_start n)))
           (nodes_of (ast_deviations (parseYang interleaved))))"
      by (simp add: document_order_def sorted_wrt_map pos_less_def)
    moreover have "map (\<lambda>n. (line (dev_start n), character (dev_start n)))
           (nodes_of (ast_deviations (parseYang interleaved))) = [(1, 0), (4, 0), (3, 0)]"
      by code_simp
    ultimately show False by simp
  qed
  from a b c v show ?thesis by (intro conjI)
qed

section \<open>Claims about the validation pass\<close>

text \<open>
  C7. The diagnostics that \<open>validate\<close> returns are those of the first rule, in the
  order of the nodes of its scope, then those of the second rule, and so on: rule order,
  then node order. For two rules \<open>R1\<close> and \<open>R2\<close> scoped to \<open>import\<close> that both match the
  imports \<open>A\<close> and \<open>B\<close> the list is R1 at A, R1 at B, R2 at A, R2 at B, which is not in the
  order of the source positions.
\<close>

theorem validate_order:
  "(snd (validate eng uri ast) = Inr out \<longrightarrow>
      out = concat (map (\<lambda>c. truthy_diagnostics (rule_pairs ast c)) (compiled eng)))
   \<and> snd (validate (engine_with [R1, R2]) uri two_imports)
       = Inr [at_import ''R1'' import_A, at_import ''R1'' import_B,
              at_import ''R2'' import_A, at_import ''R2'' import_B]
   \<and> \<not> document_order (map (\<lambda>d. range_start (d_range d))
          [at_import ''R1'' import_A, at_import ''R1'' import_B,
           at_import ''R2'' import_A, at_import ''R2'' import_B])"
proof -
  have t: "truthy_diagnostics (all_pairs ast cs)
         = concat (map (\<lambda>c. truthy_diagnostics (rule_pairs ast c)) cs)" for cs
    by (induction cs) (simp_all add: all_pairs_def truthy_diagnostics_def)
  have a: "snd (validate eng uri ast) = Inr out \<longrightarrow>
      out = concat (map (\<lambda>c. truthy_diagnostics (rule_pairs ast c)) (compiled eng))"
    using run_pairs_Inr [of "all_pairs ast (compiled eng)" "[]" out]
    by (simp add: validate_run t)
  have b: "snd (validate (engine_with [R1, R2]) uri two_imports)
       = Inr [at_import ''R1'' import_A, at_import ''R1'' import_B,
              at_import ''R2'' import_A, at_import ''R2'' import_B]"
    by (simp add: validate_run engine_with_def sample_pairs_true)
  have c: "\<not> document_order (map (\<lambda>d. range_start (d_range d))
          [at_import ''R1'' import_A, at_import ''R1'' import_B,
           at_import ''R2'' import_A, at_import ''R2'' import_B])"
    by (simp add: document_order_def at_import_def diagnostic_def import_A_def import_B_def
          pos_less_def)
  from a b c show ?thesis by (intro conjI)
qed

theorem validate_order_witness:
  "snd (validate (engine_with [R1, R2]) ''u'' two_imports)
       = Inr [at_import ''R1'' import_A, at_import ''R1'' import_B,
              at_import ''R2'' import_A, at_import ''R2'' import_B]
   \<and> [at_import ''R1'' import_A, at_import ''R1'' import_B,
        at_import ''R2'' import_A, at_import ''R2'' import_B]
     = concat (map (\<lambda>c. truthy_diagnostics (rule_pairs two_imports c))
         (compiled (engine_with [R1, R2])))"
proof -
  have v: "snd (validate (engine_with [R1, R2]) ''u'' two_imports)
       = Inr [at_import ''R1'' import_A, at_import ''R1'' import_B,
              at_import ''R2'' import_A, at_import ''R2'' import_B]"
    by (simp add: validate_run engine_with_def sample_pairs_true)
  with validate_order [of "engine_with [R1, R2]" "''u''" two_imports
      "[at_import ''R1'' import_A, at_import ''R1'' import_B,
        at_import ''R2'' import_A, at_import ''R2'' import_B]"]
  show ?thesis by blast
qed

text \<open>
  C1, as the code has it. \<open>validate\<close> has no handler around the evaluation of a
  predicate: when the predicate of some (rule, node) pair throws, \<open>validate\<close> throws the
  exception of such a pair and returns no diagnostics; when no predicate throws, every
  pair is evaluated and every truthy pair contributes its diagnostic. Either way the
  deviation index has been rebuilt from the deviations of the Ast: it holds, for each
  target, the ranges of the nodes of that target.
\<close>

theorem validate_throw_aborts:
  "((\<exists>p \<in> set (all_pairs ast (compiled eng)). isl (fst p)) \<longrightarrow>
      (\<exists>e d. (Inl e, d) \<in> set (all_pairs ast (compiled eng))
           \<and> snd (validate eng uri ast) = Inl e))
   \<and> ((\<forall>p \<in> set (all_pairs ast (compiled eng)). \<not> isl (fst p)) \<longrightarrow>
        snd (validate eng uri ast) = Inr (truthy_diagnostics (all_pairs ast (compiled eng))))
   \<and> (\<forall>t. map_get (deviationMap (fst (validate eng uri ast))) t
              = occurrences (nodes_of (ast_deviations ast)) t)"
proof (intro conjI impI allI)
  assume "\<exists>p \<in> set (all_pairs ast (compiled eng)). isl (fst p)"
  from run_pairs_throw [OF this, of "[]"]
  show "\<exists>e d. (Inl e, d) \<in> set (all_pairs ast (compiled eng))
           \<and> snd (validate eng uri ast) = Inl e"
    by (simp add: validate_run)
next
  assume "\<forall>p \<in> set (all_pairs ast (compiled eng)). \<not> isl (fst p)"
  from run_pairs_no_throw [OF this, of "[]"]
  show "snd (validate eng uri ast) = Inr (truthy_diagnostics (all_pairs ast (compiled eng)))"
    by (simp add: validate_run)
next
  fix t
  show "map_get (deviationMap (fst (validate eng uri ast))) t
          = occurrences (nodes_of (ast_deviations ast)) t"
    by (rule validate_index)
qed

theorem validate_throw_aborts_witness:
  "(\<exists>p \<in> set (all_pairs two_imports (compiled (engine_with [R1_throwing, R2]))). isl (fst p))
   \<and> (\<exists>e d. (Inl e, d) \<in> set (all_pairs two_imports (compiled (engine_with [R1_throwing, R2])))
           \<and> snd (validate (engine_with [R1_throwing, R2]) ''u'' two_imports) = Inl e)
   \<and> list_all (\<lambda>p. \<not> isl (fst p)) (all_pairs two_imports (compiled (engine_with [R1, R2])))
   \<and> snd (validate (engine_with [R1, R2]) ''u'' two_imports)
       = Inr (truthy_diagnostics (all_pairs two_imports (compiled (engine_with [R1, R2]))))"
proof -
  have h1: "\<exists>p \<in> set (all_pairs two_imports (compiled (engine_with [R1_throwing, R2]))). isl (fst p)"
    by (simp add: engine_with_def sample_pairs_throwing)
  have h2: "\<forall>p \<in> set (all_pairs two_imports (compiled (engine_with [R1, R2]))). \<not> isl (fst p)"
    by (simp add: engine_with_def sample_pairs_true)
  from validate_throw_aborts [of two_imports "engine_with [R1_throwing, R2]" "''u''"] h1
  have c1: "\<exists>e d. (Inl e, d) \<in> set (all_pairs two_imports (compiled (engine_with [R1_throwing, R2])))
           \<and> snd (validate (engine_with [R1_throwing, R2]) ''u'' two_imports) = Inl e"
    by blast
  from validate_throw_aborts [of two_imports "engine_with [R1, R2]" "''u''"] h2
  have c2: "snd (validate (engine_with [R1, R2]) ''u'' two_imports)
       = Inr (truthy_diagnostics (all_pairs two_imports (compiled (engine_with [R1, R2]))))"
    by blast
  from h2 have h2': "list_all (\<lambda>p. \<not> isl (fst p))
      (all_pairs two_imports (compiled (engine_with [R1, R2])))"
    by (simp only: list_all_iff)
  from h1 c1 h2' c2 show ?thesis by (intro conjI)
qed

text \<open>
  The claim C1 as the specification states it fails: with a rule that throws on the import
  \<open>A\<close>, \<open>validate\<close> throws instead of returning the diagnostics of the other three pairs.
\<close>

theorem validate_throw_counterexample:
  "snd (validate (engine_with [R1_throwing, R2]) ''u'' two_imports) = Inl (Exn ''TypeError'')
   \<and> snd (validate (engine_with [R1_throwing, R2]) ''u'' two_imports)
       \<noteq> Inr [at_import ''R1'' import_B, at_import ''R2'' import_A, at_import ''R2'' import_B]"
  by (simp add: validate_run engine_with_def sample_pairs_throwing)

section \<open>Claims about the rule-set load\<close>

text \<open>
  C2. When a load fails (a read error, a parse error, a schema violation, or an error in
  compiling the schema or the rules), \<open>reload\<close> shows one error message and leaves the
  compiled rule set empty, whatever it held before; \<open>validate\<close> on any Ast then returns
  the empty list of diagnostics and does not throw.
\<close>

theorem failed_load_leaves_no_rules:
  assumes "load_fails w workspace"
  shows "(\<exists>msg. messages (reload w workspace eng) = messages eng @ [ErrorMessage msg])
       \<and> compiled (reload w workspace eng) = []
       \<and> snd (validate (reload w workspace eng) uri ast) = Inr []"
proof -
  from reload_failure [OF assms, of eng] obtain msg where
    r: "reload w workspace eng
          = eng\<lparr>messages := messages eng @ [ErrorMessage msg], compiled := []\<rparr>" ..
  then have m: "messages (reload w workspace eng) = messages eng @ [ErrorMessage msg]"
    and c: "compiled (reload w workspace eng) = []" by simp_all
  from c have v: "snd (validate (reload w workspace eng) uri ast) = Inr []"
    by (rule validate_no_rules)
  from m c v show ?thesis by blast
qed

theorem failed_load_leaves_no_rules_witness:
  "load_fails missing_field_world ''ws''
   \<and> compiled (engine_with [R1, R2]) \<noteq> []
   \<and> compiled (reload missing_field_world ''ws'' (engine_with [R1, R2])) = []
   \<and> messages (reload missing_field_world ''ws'' (engine_with [R1, R2]))
       = [ErrorMessage ''Rule schema error: must have required property when'']
   \<and> snd (validate (reload missing_field_world ''ws'' (engine_with [R1, R2])) ''u'' two_imports)
       = Inr []"
proof -
  have f: "load_fails missing_field_world ''ws''"
    by (simp add: load_fails_def schema_violation_def loaded_inputs_def missing_field_world_def)
  have n: "compiled (engine_with [R1, R2]) \<noteq> []" by (simp add: engine_with_def)
  have m: "messages (reload missing_field_world ''ws'' (engine_with [R1, R2]))
       = [ErrorMessage ''Rule schema error: must have required property when'']"
    by (simp add: reload_def reload_try_def missing_field_world_def engine_with_def)
  from failed_load_leaves_no_rules [OF f, of "engine_with [R1, R2]" "''u''" two_imports] f n m
  show ?thesis by simp
qed

section \<open>Claims about the quick fix\<close>

text \<open>
  C8, as the code has it. For a diagnostic that carries a groupId: when the deviation
  index has no group for that target, or a group of fewer than two occurrences, the quick
  fix returns nothing and does not throw. When the group has two or more occurrences and
  every occurrence lies within the text, it returns one code action whose first edit
  replaces the full range of the occurrence that is first in document order with the
  merged block, and whose other edits delete, with an empty replacement, the full range
  of every other occurrence. The merged block is the line \<open>deviation target {\<close> at the
  base indent, the indentation of the line on which the first occurrence starts; then
  the bodies of all the occurrences of the group, in document order and one blank line
  apart, each computed from the text of its occurrence with the base indent and two
  blanks as child indent; then the closing brace at the base indent. When an occurrence
  of the group lies beyond the text, as with an index left by another document, the
  quick fix throws. The body computed from a text that holds an opening and a closing
  brace is the text strictly between the first \<open>{\<close> and the last \<open>}\<close>, without the
  newlines it starts with and the white space it ends with, every line stripped of the
  least indentation of the lines that are not blank and prefixed with the child indent.
\<close>

theorem merge_fix_edits:
  assumes "d_data diag = Some target"
  shows
    "((map_get dmap target = None \<or> (\<exists>rs. map_get dmap target = Some rs \<and> length rs < 2)) \<longrightarrow>
        buildDeviationFix dmap diag uri text = Inr None)
     \<and> (\<forall>rs. map_get dmap target = Some rs \<and> 2 \<le> length rs
              \<and> (\<forall>r \<in> set rs. within_text text r) \<longrightarrow>
           (\<exists>first others.
              buildDeviationFix dmap diag uri text =
                Inr (Some \<lparr>ca_title = ''Merge duplicate deviations'', ca_kind = QuickFix,
                           ca_diagnostics = [diag],
                           ca_changes =
                             [(uri,
                               \<lparr>te_range = first,
                                 te_newText =
                                   merged_block (base_indent text first) target
                                     (map (\<lambda>r. reindent_body (base_indent text first @ ''  '')
                                                 (occurrence_text text r))
                                        (first # others))\<rparr>
                               # map (\<lambda>r. \<lparr>te_range = r, te_newText = []\<rparr>) others)]\<rparr>)
              \<and> (\<forall>r. count_list (first # others) r = count_list rs r)
              \<and> sorted_wrt not_after (first # others)
              \<and> (\<forall>r \<in> set rs. \<not> pos_less (range_start r) (range_start first))))
     \<and> (\<forall>rs. map_get dmap target = Some rs \<and> 2 \<le> length rs
              \<and> (\<exists>r \<in> set rs. \<not> within_text text r) \<longrightarrow>
           (\<exists>e. buildDeviationFix dmap diag uri text = Inl e))
     \<and> (\<forall>child raw. has_braces raw \<longrightarrow> reindent_body child raw = occurrence_body child raw)"
proof (intro conjI allI impI)
  assume "map_get dmap target = None \<or> (\<exists>rs. map_get dmap target = Some rs \<and> length rs < 2)"
  with assms show "buildDeviationFix dmap diag uri text = Inr None"
    by (rule buildDeviationFix_none)
next
  fix rs
  assume h: "map_get dmap target = Some rs \<and> 2 \<le> length rs \<and> (\<forall>r \<in> set rs. within_text text r)"
  then have m: "map_get dmap target = Some rs" and l: "2 \<le> length rs"
    and w: "\<forall>r \<in> set rs. within_text text r" by simp_all
  from l have "sort_ranges rs \<noteq> []"
    by (metis length_sort_ranges list.size(3) not_numeral_le_zero)
  then obtain f os where s: "sort_ranges rs = f # os" by (cases "sort_ranges rs") auto
  have r: "buildDeviationFix dmap diag uri text =
       Inr (Some \<lparr>ca_title = ''Merge duplicate deviations'', ca_kind = QuickFix,
                  ca_diagnostics = [diag],
                  ca_changes =
                    [(uri,
                      \<lparr>te_range = f,
                        te_newText =
                          merged_block (base_indent text f) target
                            (map (\<lambda>r. reindent_body (base_indent text f @ ''  '')
                                        (occurrence_text text r))
                               (f # os))\<rparr>
                      # map (\<lambda>r. \<lparr>te_range = r, te_newText = []\<rparr>) os)]\<rparr>)"
    using buildDeviationFix_merged [OF assms m l w, of uri] by (simp add: s)
  have c: "\<forall>r. count_list (f # os) r = count_list rs r"
    using count_sort_ranges [of rs] by (simp add: s)
  have o: "sorted_wrt not_after (f # os)"
    using sorted_sort_ranges [of rs] by (simp only: s)
  have m: "\<forall>r \<in> set rs. \<not> pos_less (range_start r) (range_start f)"
    using hd_sort_ranges_first [of _ rs] by (simp add: s)
  from r c o m
  show "\<exists>first others.
   buildDeviationFix dmap diag uri text =
     Inr (Some \<lparr>ca_title = ''Merge duplicate deviations'', ca_kind = QuickFix,
                ca_diagnostics = [diag],
                ca_changes =
                  [(uri,
                    \<lparr>te_range = first,
                      te_newText =
                        merged_block (base_indent text first) target
                          (map (\<lambda>r. reindent_body (base_indent text first @ ''  '')
                                      (occurrence_text text r))
                             (first # others))\<rparr>
                    # map (\<lambda>r. \<lparr>te_range = r, te_newText = []\<rparr>) others)]\<rparr>)
   \<and> (\<forall>r. count_list (first # others) r = count_list rs r)
   \<and> sorted_wrt not_after (first # others)
   \<and> (\<forall>r \<in> set rs. \<not> pos_less (range_start r) (range_start first))"
    by (intro exI conjI)
next
  fix rs
  assume h: "map_get dmap target = Some rs \<and> 2 \<le> length rs
      \<and> (\<exists>r \<in> set rs. \<not> within_text text r)"
  then have m: "map_get dmap target = Some rs" and l: "2 \<le> length rs"
    and w: "\<exists>r \<in> set rs. \<not> within_text text r" by simp_all
  from buildDeviationFix_beyond [OF assms m l w]
  show "\<exists>e. buildDeviationFix dmap diag uri text = Inl e" .
next
  fix child raw
  assume "has_braces raw"
  then show "reindent_body child raw = occurrence_body child raw"
    by (rule reindent_body_occurrence_body)
qed

theorem merge_fix_edits_witness:
  "d_data dup_diag = Some ''/if:x''
   \<and> map_get [] ''/if:x'' = (None :: Range list option)
   \<and> buildDeviationFix [] dup_diag ''u'' merge_doc = Inr None
   \<and> map_get merge_index ''/if:x'' = Some [second_block, first_block]
   \<and> list_all (within_text merge_doc) [second_block, first_block]
   \<and>
   (\<exists>first others.
      buildDeviationFix merge_index dup_diag ''u'' merge_doc =
        Inr (Some \<lparr>ca_title = ''Merge duplicate deviations'', ca_kind = QuickFix,
                   ca_diagnostics = [dup_diag],
                   ca_changes =
                     [(''u'',
                       \<lparr>te_range = first,
                         te_newText =
                           merged_block (base_indent merge_doc first) ''/if:x''
                             (map (\<lambda>r. reindent_body (base_indent merge_doc first @ ''  '')
                                         (occurrence_text merge_doc r))
                                (first # others))\<rparr>
                       # map (\<lambda>r. \<lparr>te_range = r, te_newText = []\<rparr>) others)]\<rparr>)
      \<and> (\<forall>r. count_list (first # others) r = count_list [second_block, first_block] r)
      \<and> sorted_wrt not_after (first # others)
      \<and> (\<forall>r \<in> set [second_block, first_block]. \<not> pos_less (range_start r) (range_start first)))
   \<and> buildDeviationFix merge_index dup_diag ''u'' merge_doc =
        Inr (Some \<lparr>ca_title = ''Merge duplicate deviations'', ca_kind = QuickFix,
                   ca_diagnostics = [dup_diag],
                   ca_changes =
                     [(''u'',
                       [\<lparr>te_range = first_block,
                         te_newText =
                           ''  deviation /if:x {\<newline>    deviate add { max-elements 10; }\<newline>\<newline>    deviate add { min-elements 1; }\<newline>  }''\<rparr>,
                        \<lparr>te_range = second_block, te_newText = []\<rparr>])]\<rparr>)
   \<and> (\<exists>r \<in> set (the (map_get stale_index ''/if:x'')). \<not> within_text merge_doc r)
   \<and> (\<exists>e. buildDeviationFix stale_index dup_diag ''u'' merge_doc = Inl e)
   \<and> has_braces (occurrence_text merge_doc first_block)
   \<and> reindent_body ''    '' (occurrence_text merge_doc first_block)
       = occurrence_body ''    '' (occurrence_text merge_doc first_block)
   \<and> occurrence_body ''    '' (occurrence_text merge_doc first_block)
       = ''    deviate add { max-elements 10; }''"
proof -
  have d: "d_data dup_diag = Some ''/if:x''" by (simp add: dup_diag_def)
  have m0: "map_get [] ''/if:x'' = (None :: Range list option)" by (simp add: map_get_def)
  have m1: "map_get merge_index ''/if:x'' = Some [second_block, first_block]"
    by (simp add: map_get_def merge_index_def)
  have w: "list_all (within_text merge_doc) [second_block, first_block]" by code_simp
  then have w': "\<forall>r \<in> set [second_block, first_block]. within_text merge_doc r"
    by (simp only: list_all_iff)
  have l: "2 \<le> length [second_block, first_block]" by simp
  have m2: "map_get stale_index ''/if:x'' =
      Some [\<lparr>range_start = \<lparr>line = 40, character = 0\<rparr>, range_end = \<lparr>line = 42, character = 1\<rparr>\<rparr>,
            \<lparr>range_start = \<lparr>line = 50, character = 0\<rparr>, range_end = \<lparr>line = 52, character = 1\<rparr>\<rparr>]"
    by (simp add: map_get_def stale_index_def)
  have nw: "\<not> within_text merge_doc
      \<lparr>range_start = \<lparr>line = 40, character = 0\<rparr>, range_end = \<lparr>line = 42, character = 1\<rparr>\<rparr>"
    by code_simp
  then have b: "\<exists>r \<in> set (the (map_get stale_index ''/if:x'')). \<not> within_text merge_doc r"
    by (simp add: m2)
  have hb: "has_braces (occurrence_text merge_doc first_block)" by code_simp
  have ob: "occurrence_body ''    '' (occurrence_text merge_doc first_block)
       = ''    deviate add { max-elements 10; }''" by code_simp
  note t = merge_fix_edits [OF d]
  from t [of "[]" "''u''" merge_doc] m0
  have r0: "buildDeviationFix [] dup_diag ''u'' merge_doc = Inr None" by blast
  note t1 = t [of merge_index "''u''" merge_doc, THEN conjunct2, THEN conjunct1, THEN spec,
      of "[second_block, first_block]", THEN mp]
  have r1:
"   (\<exists>first others.
      buildDeviationFix merge_index dup_diag ''u'' merge_doc =
        Inr (Some \<lparr>ca_title = ''Merge duplicate deviations'', ca_kind = QuickFix,
                   ca_diagnostics = [dup_diag],
                   ca_changes =
                     [(''u'',
                       \<lparr>te_range = first,
                         te_newText =
                           merged_block (base_indent merge_doc first) ''/if:x''
                             (map (\<lambda>r. reindent_body (base_indent merge_doc first @ ''  '')
                                         (occurrence_text merge_doc r))
                                (first # others))\<rparr>
                       # map (\<lambda>r. \<lparr>te_range = r, te_newText = []\<rparr>) others)]\<rparr>)
      \<and> (\<forall>r. count_list (first # others) r = count_list [second_block, first_block] r)
      \<and> sorted_wrt not_after (first # others)
      \<and> (\<forall>r \<in> set [second_block, first_block]. \<not> pos_less (range_start r) (range_start first)))"
    by (rule t1) (intro conjI m1 l w')
  have v: "buildDeviationFix merge_index dup_diag ''u'' merge_doc =
        Inr (Some \<lparr>ca_title = ''Merge duplicate deviations'', ca_kind = QuickFix,
                   ca_diagnostics = [dup_diag],
                   ca_changes =
                     [(''u'',
                       [\<lparr>te_range = first_block,
                         te_newText =
                           ''  deviation /if:x {\<newline>    deviate add { max-elements 10; }\<newline>\<newline>    deviate add { min-elements 1; }\<newline>  }''\<rparr>,
                        \<lparr>te_range = second_block, te_newText = []\<rparr>])]\<rparr>)"
    by code_simp
  from t [of stale_index "''u''" merge_doc] m2 nw
  have r2: "\<exists>e. buildDeviationFix stale_index dup_diag ''u'' merge_doc = Inl e"
    by simp
  note t3 = t [of "[]" "''u''" merge_doc, THEN conjunct2, THEN conjunct2, THEN conjunct2,
      THEN spec, THEN spec, THEN mp]
  have r3: "reindent_body ''    '' (occurrence_text merge_doc first_block)
       = occurrence_body ''    '' (occurrence_text merge_doc first_block)"
    using hb by (rule t3)
  from d m0 r0 m1 w r1 v b r2 hb r3 ob show ?thesis by (intro conjI)
qed

text \<open>
  The claim C8 as the specification states it fails: with a group of two occurrences that
  lie beyond the text, the quick fix throws instead of returning a code action.
\<close>

theorem merge_fix_stale_index_counterexample:
  "d_data dup_diag = Some ''/if:x''
   \<and> map_option length (map_get stale_index ''/if:x'') = Some 2
   \<and> buildDeviationFix stale_index dup_diag ''u'' merge_doc = Inl (Exn ''TypeError'')"
proof -
  have a: "d_data dup_diag = Some ''/if:x''" by (simp add: dup_diag_def)
  have b: "map_option length (map_get stale_index ''/if:x'') = Some 2"
    by (simp add: map_get_def stale_index_def)
  have c: "buildDeviationFix stale_index dup_diag ''u'' merge_doc = Inl (Exn ''TypeError'')"
    by code_simp
  from a b c show ?thesis by (intro conjI)
qed
section \<open>Claims about the predicate library\<close>

lemma at_index_neq: "(at_index xs i \<noteq> Some k) = (length xs \<le> i \<or> xs ! i \<noteq> k)"
  by (simp add: at_index_def)

lemma some_indexed_iff:
  "some_indexed p ks i = (\<exists>j < length ks. p (ks ! j) (i + j))"
proof (induction ks arbitrary: i)
  case Nil
  show ?case by simp
next
  case (Cons k ks)
  have "(\<exists>j < Suc (length ks). p ((k # ks) ! j) (i + j)) =
        (p k i \<or> (\<exists>j < length ks. p (ks ! j) (Suc i + j)))"
  proof
    assume "\<exists>j < Suc (length ks). p ((k # ks) ! j) (i + j)"
    then obtain j where j: "j < Suc (length ks)" "p ((k # ks) ! j) (i + j)" by blast
    show "p k i \<or> (\<exists>j < length ks. p (ks ! j) (Suc i + j))"
    proof (cases j)
      case 0
      with j show ?thesis by simp
    next
      case (Suc j')
      with j have "j' < length ks" "p (ks ! j') (Suc i + j')" by simp_all
      then show ?thesis by blast
    qed
  next
    assume "p k i \<or> (\<exists>j < length ks. p (ks ! j) (Suc i + j))"
    then show "\<exists>j < Suc (length ks). p ((k # ks) ! j) (i + j)"
    proof
      assume "p k i"
      then have "0 < Suc (length ks) \<and> p ((k # ks) ! 0) (i + 0)" by simp
      then show ?thesis by blast
    next
      assume "\<exists>j < length ks. p (ks ! j) (Suc i + j)"
      then obtain j where "j < length ks" "p (ks ! j) (Suc i + j)" by blast
      then have "Suc j < Suc (length ks) \<and> p ((k # ks) ! Suc j) (i + Suc j)" by simp
      then show ?thesis by blast
    qed
  qed
  then show ?case using Cons.IH [of "Suc i"] by simp
qed

text \<open>
  C9. \<open>keyOrderInvalid\<close> is true of a list node exactly when, at some index of its key
  names, the child name at the same index is not the key name (there is no child at that
  index, or it is another name): the comparison is by position, not by membership. For
  the key a, b and the children a, c, b it is true; for the key a, b and the children
  a, b, c it is false.
\<close>

theorem keyOrderInvalid_positional:
  "keyOrderInvalid lst =
     (\<exists>i < length (ls_key lst). at_index (ls_children lst) i \<noteq> Some (ls_key lst ! i))
   \<and> keyOrderInvalid lst =
     (\<exists>i < length (ls_key lst).
        length (ls_children lst) \<le> i \<or> ls_children lst ! i \<noteq> ls_key lst ! i)
   \<and> keyOrderInvalid (lst\<lparr>ls_key := [''a'', ''b''], ls_children := [''a'', ''c'', ''b'']\<rparr>)
   \<and> \<not> keyOrderInvalid (lst\<lparr>ls_key := [''a'', ''b''], ls_children := [''a'', ''b'', ''c'']\<rparr>)"
proof -
  have a: "keyOrderInvalid lst =
     (\<exists>i < length (ls_key lst). at_index (ls_children lst) i \<noteq> Some (ls_key lst ! i))"
    by (simp add: keyOrderInvalid_def some_indexed_iff)
  have b: "keyOrderInvalid lst =
     (\<exists>i < length (ls_key lst).
        length (ls_children lst) \<le> i \<or> ls_children lst ! i \<noteq> ls_key lst ! i)"
    unfolding a by (simp only: at_index_neq)
  have c: "keyOrderInvalid (lst\<lparr>ls_key := [''a'', ''b''], ls_children := [''a'', ''c'', ''b'']\<rparr>)"
    by (simp add: keyOrderInvalid_def at_index_def)
  have d: "\<not> keyOrderInvalid (lst\<lparr>ls_key := [''a'', ''b''], ls_children := [''a'', ''b'', ''c'']\<rparr>)"
    by (simp add: keyOrderInvalid_def at_index_def)
  show ?thesis by (intro conjI) (rule a, rule b, rule c, rule d)
qed

end
